theory Spec2Isabelle
  imports Main
begin

section \<open>Numbers that may be Infinity\<close>

text \<open>
  The limits of the cache and of the queue (\<open>maxEntries\<close>, \<open>ttlMs\<close>, \<open>maxBytes\<close>,
  \<open>maxSize\<close>) are JavaScript numbers whose default is \<open>Infinity\<close>. They are
  modelled as an integer or \<open>Infinity\<close>; counts, byte sizes and timestamps
  (milliseconds of \<open>Date.now()\<close>) are integers.
\<close>

datatype bound = Finite int | Infinity

text \<open>\<open>x > b\<close>, \<open>x >= b\<close> and \<open>x < b\<close> for a finite number \<open>x\<close>.\<close>

fun gt_bound :: "int \<Rightarrow> bound \<Rightarrow> bool" where
  "gt_bound x (Finite m) = (x > m)"
| "gt_bound x Infinity = False"

fun ge_bound :: "int \<Rightarrow> bound \<Rightarrow> bool" where
  "ge_bound x (Finite m) = (x \<ge> m)"
| "ge_bound x Infinity = False"

fun lt_bound :: "int \<Rightarrow> bound \<Rightarrow> bool" where
  "lt_bound x (Finite m) = (x < m)"
| "lt_bound x Infinity = True"

section \<open>The LRU cache (packages/app/src/utils/cache.ts)\<close>

text \<open>
  A JavaScript \<open>Map\<close> iterates in insertion order, and \<open>evictOne\<close> breaks ties by
  that order, so the map is an association list: \<open>Map.set\<close> on a present key
  replaces the entry where it stands, on an absent key it appends; \<open>Map.delete\<close>
  removes the entry.
\<close>

fun map_set :: "string \<Rightarrow> 'e \<Rightarrow> (string \<times> 'e) list \<Rightarrow> (string \<times> 'e) list" where
  "map_set k e [] = [(k, e)]"
| "map_set k e ((k', e') # rest) =
     (if k' = k then (k, e) # rest else (k', e') # map_set k e rest)"

definition map_delete :: "string \<Rightarrow> (string \<times> 'e) list \<Rightarrow> (string \<times> 'e) list" where
  "map_delete k m = filter (\<lambda>p. fst p \<noteq> k) m"

record 'v CacheOpts =
  opt_maxEntries :: "bound option"
  opt_ttlMs :: "bound option"
  opt_maxBytes :: "bound option"
  opt_sizeOf :: "('v \<Rightarrow> int) option"
  opt_onEvict :: bool

record 'v CacheEntry =
  val :: 'v
  lastAccess :: int
  createdAt :: int

text \<open>
  The closure of \<open>createLruCache\<close>: the destructured options, \<open>currentBytes\<close> and
  the map \<open>cache\<close>. \<open>onEvict\<close> says whether a callback was supplied; its calls are
  recorded, in order, in \<open>evicted\<close>.
\<close>

record 'v lru =
  maxEntries :: bound
  ttlMs :: bound
  maxBytes :: bound
  sizeOf :: "'v \<Rightarrow> int"
  onEvict :: bool
  currentBytes :: int
  cache :: "(string \<times> 'v CacheEntry) list"
  evicted :: "(string \<times> 'v) list"

definition createLruCache :: "'v CacheOpts \<Rightarrow> 'v lru" where
  "createLruCache opts =
     \<lparr> maxEntries = (case opt_maxEntries opts of None \<Rightarrow> Infinity | Some b \<Rightarrow> b),
       ttlMs = (case opt_ttlMs opts of None \<Rightarrow> Infinity | Some b \<Rightarrow> b),
       maxBytes = (case opt_maxBytes opts of None \<Rightarrow> Infinity | Some b \<Rightarrow> b),
       sizeOf = (case opt_sizeOf opts of None \<Rightarrow> (\<lambda>_. 0) | Some f \<Rightarrow> f),
       onEvict = opt_onEvict opts,
       currentBytes = 0,
       cache = [],
       evicted = [] \<rparr>"

text \<open>\<open>onEvict?.(key, value)\<close>\<close>

definition fire_onEvict :: "string \<Rightarrow> 'v \<Rightarrow> 'v lru \<Rightarrow> 'v lru" where
  "fire_onEvict key v c = (if onEvict c then c\<lparr>evicted := evicted c @ [(key, v)]\<rparr> else c)"

text \<open>\<open>delete_\<close> of the source; the public \<open>delete\<close> is the same function.\<close>

definition delete_entry :: "string \<Rightarrow> 'v lru \<Rightarrow> bool \<times> 'v lru" where
  "delete_entry key c =
     (case map_of (cache c) key of
        None \<Rightarrow> (False, c)
      | Some entry \<Rightarrow>
          (let c1 = c\<lparr>currentBytes := currentBytes c - sizeOf c (val entry)\<rparr>;
               c2 = fire_onEvict key (val entry) c1
           in (True, c2\<lparr>cache := map_delete key (cache c2)\<rparr>)))"

text \<open>
  \<open>evictExpired\<close>: the loop visits every entry of the map once; deleting the
  entry being visited does not disturb the iteration.
\<close>

definition evictExpired :: "int \<Rightarrow> 'v lru \<Rightarrow> 'v lru" where
  "evictExpired now c =
     fold (\<lambda>(key, entry) c'.
             if gt_bound (now - createdAt entry) (ttlMs c') then snd (delete_entry key c') else c')
          (cache c) c"

text \<open>
  \<open>evictOne\<close>: the scan keeps the first entry with the strictly smallest
  \<open>lastAccess\<close>. The test \<open>if (oldestKey)\<close> is JavaScript truthiness: it fails for
  \<open>null\<close> and also for the empty string.
\<close>

definition scan_step ::
  "string \<times> 'v CacheEntry \<Rightarrow> string option \<times> bound \<Rightarrow> string option \<times> bound" where
  "scan_step p acc =
     (case (p, acc) of ((key, entry), (oldestKey, oldestAccess)) \<Rightarrow>
        if lt_bound (lastAccess entry) oldestAccess
        then (Some key, Finite (lastAccess entry)) else (oldestKey, oldestAccess))"

definition oldest_scan :: "(string \<times> 'v CacheEntry) list \<Rightarrow> string option \<times> bound" where
  "oldest_scan m = fold scan_step m (None, Infinity)"

definition evictOne :: "'v lru \<Rightarrow> 'v lru" where
  "evictOne c =
     (case fst (oldest_scan (cache c)) of
        None \<Rightarrow> c
      | Some oldestKey \<Rightarrow> if oldestKey \<noteq> [] then snd (delete_entry oldestKey c) else c)"

text \<open>
  The \<open>while\<close> loop of \<open>evictToMakeRoomFor\<close>. An \<open>evictOne\<close> that removes nothing
  leaves the state as it was (lemma \<open>evictOne_no_progress\<close> below), so the loop
  then repeats the same iteration for ever: the result is \<open>None\<close>.
\<close>

function evictLoop :: "int \<Rightarrow> 'v lru \<Rightarrow> 'v lru option" where
  "evictLoop entrySize c =
     (if ge_bound (int (length (cache c))) (maxEntries c)
         \<or> gt_bound (currentBytes c + entrySize) (maxBytes c)
      then if length (cache c) = 0 then Some c
           else if length (cache (evictOne c)) < length (cache c)
                then evictLoop entrySize (evictOne c)
                else None
      else Some c)"
  by pat_completeness auto
termination
  by (relation "measure (\<lambda>(entrySize, c). length (cache c))") auto

declare evictLoop.simps [simp del]

definition evictToMakeRoomFor :: "'v \<Rightarrow> int \<Rightarrow> 'v lru \<Rightarrow> 'v lru option" where
  "evictToMakeRoomFor v now c =
     (let c1 = evictExpired now c in evictLoop (sizeOf c1 v) c1)"

text \<open>
  The public operations. \<open>now\<close> is the value of \<open>Date.now()\<close> during the call
  (one call is taken to be shorter than a millisecond). \<open>get\<close> and \<open>peek\<close> return
  \<open>None\<close> for JavaScript's \<open>undefined\<close>. \<open>set_entry\<close> is \<open>set\<close>; it is \<open>None\<close> when the
  call does not return.
\<close>

definition get :: "string \<Rightarrow> int \<Rightarrow> 'v lru \<Rightarrow> 'v option \<times> 'v lru" where
  "get key now c =
     (case map_of (cache c) key of
        None \<Rightarrow> (None, c)
      | Some entry \<Rightarrow>
          if gt_bound (now - createdAt entry) (ttlMs c)
          then (None, snd (delete_entry key c))
          else (Some (val entry),
                c\<lparr>cache := map_set key (entry\<lparr>lastAccess := now\<rparr>) (cache c)\<rparr>))"

definition set_entry :: "string \<Rightarrow> 'v \<Rightarrow> int \<Rightarrow> 'v lru \<Rightarrow> 'v lru option" where
  "set_entry key v now c =
     (let c1 = (case map_of (cache c) key of
                  Some existing \<Rightarrow> c\<lparr>currentBytes := currentBytes c - sizeOf c (val existing)\<rparr>
                | None \<Rightarrow> c)
      in case evictToMakeRoomFor v now c1 of
           None \<Rightarrow> None
         | Some c2 \<Rightarrow>
             Some (c2\<lparr>cache := map_set key \<lparr>val = v, lastAccess = now, createdAt = now\<rparr> (cache c2),
                      currentBytes := currentBytes c2 + sizeOf c2 v\<rparr>))"

definition has :: "string \<Rightarrow> int \<Rightarrow> 'v lru \<Rightarrow> bool \<times> 'v lru" where
  "has key now c =
     (case map_of (cache c) key of
        None \<Rightarrow> (False, c)
      | Some entry \<Rightarrow>
          if gt_bound (now - createdAt entry) (ttlMs c)
          then (False, snd (delete_entry key c))
          else (True, c))"

definition peek :: "string \<Rightarrow> 'v lru \<Rightarrow> 'v option" where
  "peek key c = map_option val (map_of (cache c) key)"

definition clear :: "'v lru \<Rightarrow> 'v lru" where
  "clear c =
     (let c1 = fold (\<lambda>(key, entry) c'. fire_onEvict key (val entry) c') (cache c) c
      in c1\<lparr>cache := [], currentBytes := 0\<rparr>)"

definition byteSize :: "'v lru \<Rightarrow> int" where
  "byteSize c = currentBytes c"

text \<open>The sum of \<open>sizeOf(value)\<close> over the entries that are in the map.\<close>

definition live_bytes :: "'v lru \<Rightarrow> int" where
  "live_bytes c = sum_list (map (\<lambda>(key, entry). sizeOf c (val entry)) (cache c))"

text \<open>A sequence of calls on one cache; \<open>None\<close> when a \<open>set\<close> in it does not return.\<close>

datatype 'v cache_op =
    Get string int
  | Set string 'v int
  | Has string int
  | Peek string
  | Delete string
  | Clear

fun apply_op :: "'v cache_op \<Rightarrow> 'v lru \<Rightarrow> 'v lru option" where
  "apply_op (Get key now) c = Some (snd (get key now c))"
| "apply_op (Set key v now) c = set_entry key v now c"
| "apply_op (Has key now) c = Some (snd (has key now c))"
| "apply_op (Peek key) c = Some c"
| "apply_op (Delete key) c = Some (snd (delete_entry key c))"
| "apply_op Clear c = Some (clear c)"

fun run_ops :: "'v cache_op list \<Rightarrow> 'v lru \<Rightarrow> 'v lru option" where
  "run_ops [] c = Some c"
| "run_ops (op # ops) c =
     (case apply_op op c of None \<Rightarrow> None | Some c' \<Rightarrow> run_ops ops c')"

fun is_Set :: "'v cache_op \<Rightarrow> bool" where
  "is_Set (Set key v now) = True"
| "is_Set _ = False"

text \<open>Concrete caches used to instantiate the theorems below.\<close>

definition opts_two :: "int CacheOpts" where
  "opts_two = \<lparr> opt_maxEntries = Some (Finite 2), opt_ttlMs = None, opt_maxBytes = None,
                opt_sizeOf = None, opt_onEvict = False \<rparr>"

definition opts_ttl :: "int CacheOpts" where
  "opts_ttl = \<lparr> opt_maxEntries = None, opt_ttlMs = Some (Finite 10), opt_maxBytes = None,
                opt_sizeOf = None, opt_onEvict = True \<rparr>"

definition cache_ttl :: "int lru" where
  "cache_ttl = \<lparr> maxEntries = Infinity, ttlMs = Finite 10, maxBytes = Infinity,
       sizeOf = (\<lambda>_. 0), onEvict = True, currentBytes = 0,
       cache = [(''a'', \<lparr>val = 5, lastAccess = 0, createdAt = 0\<rparr>)], evicted = [] \<rparr>"

section \<open>The queue (class AsyncQueue)\<close>

datatype strategy = Oldest | Newest | Block

record QueueMetrics =
  enqueued :: int
  dequeued :: int
  dropped :: int
  cacheHits :: int
  cacheMisses :: int
  currentSize :: int

text \<open>The entry of the deduplication map (\<open>CacheEntry<T>\<close> of the queue's file).\<close>

record 'a DedupEntry =
  cached :: 'a
  expires :: int

text \<open>The constructor's \<open>options\<close>; \<open>None\<close> is a field that is not given.\<close>

record 'a QueueOptions =
  opt_maxSize :: "bound option"
  opt_dropStrategy :: "strategy option"
  opt_enableCache :: "bool option"
  opt_cacheKeyFn :: "('a \<Rightarrow> string) option"
  opt_cacheTTL :: "int option"

text \<open>
  The fields of the class. The linked chain from \<open>head\<close> to \<open>tail\<close> is the list
  \<open>nodes\<close>, \<open>size\<close> is \<open>qsize\<close> and \<open>cache\<close> is \<open>qcache\<close>. A resolver is the
  \<open>resolve\<close> function of the promise that a suspended \<open>next()\<close> returned; it is
  represented by a number that identifies that call, and calling it with a value
  is recorded in \<open>delivered\<close>. \<open>blocked\<close> holds the items of the pushes that are
  polling in \<open>pushWhenAvailable\<close>.
\<close>

record 'a AsyncQueue =
  nodes :: "'a list"
  qsize :: int
  resolvers :: "nat list"
  maxSize :: bound
  dropStrategy :: strategy
  qcache :: "(string \<times> 'a DedupEntry) list option"
  cacheKeyFn :: "('a \<Rightarrow> string) option"
  cacheTTL :: "int option"
  metrics :: QueueMetrics
  delivered :: "(nat \<times> 'a) list"
  blocked :: "'a list"

definition DEFAULT_CACHE_TTL :: int where
  "DEFAULT_CACHE_TTL = 5000"

text \<open>
  The constructor. \<open>stringify\<close> stands for \<open>JSON.stringify\<close>, the key function
  used when \<open>enableCache\<close> is set and no \<open>cacheKeyFn\<close> is given.
\<close>

definition new_AsyncQueue :: "('a \<Rightarrow> string) \<Rightarrow> 'a QueueOptions option \<Rightarrow> 'a AsyncQueue" where
  "new_AsyncQueue stringify options =
     (let q = \<lparr> nodes = [], qsize = 0, resolvers = [],
                 maxSize = (case options of None \<Rightarrow> Infinity
                            | Some opt \<Rightarrow> (case opt_maxSize opt of None \<Rightarrow> Infinity | Some m \<Rightarrow> m)),
                 dropStrategy = (case options of None \<Rightarrow> Oldest
                            | Some opt \<Rightarrow> (case opt_dropStrategy opt of None \<Rightarrow> Oldest | Some s \<Rightarrow> s)),
                 qcache = None, cacheKeyFn = None, cacheTTL = None,
                 metrics = \<lparr> enqueued = 0, dequeued = 0, dropped = 0, cacheHits = 0,
                             cacheMisses = 0, currentSize = 0 \<rparr>,
                 delivered = [], blocked = [] \<rparr>
      in case options of
           None \<Rightarrow> q
         | Some opt \<Rightarrow>
             if opt_enableCache opt = Some True
             then q\<lparr> qcache := Some [],
                     cacheKeyFn := Some (case opt_cacheKeyFn opt of None \<Rightarrow> stringify | Some f \<Rightarrow> f),
                     cacheTTL := Some (case opt_cacheTTL opt of None \<Rightarrow> DEFAULT_CACHE_TTL | Some t \<Rightarrow> t) \<rparr>
             else q)"

definition enqueueNode :: "'a \<Rightarrow> 'a AsyncQueue \<Rightarrow> 'a AsyncQueue" where
  "enqueueNode item q =
     q\<lparr> nodes := nodes q @ [item],
         qsize := qsize q + 1,
         metrics := (metrics q)\<lparr> enqueued := enqueued (metrics q) + 1,
                                  currentSize := qsize q + 1 \<rparr> \<rparr>"

definition dequeueNode :: "'a AsyncQueue \<Rightarrow> 'a option \<times> 'a AsyncQueue" where
  "dequeueNode q =
     (case nodes q of
        [] \<Rightarrow> (None, q)
      | v # rest \<Rightarrow>
          (Some v,
           q\<lparr> nodes := rest,
               qsize := qsize q - 1,
               metrics := (metrics q)\<lparr> dequeued := dequeued (metrics q) + 1,
                                        currentSize := qsize q - 1 \<rparr> \<rparr>))"

text \<open>
  \<open>const resolve = this.resolvers.shift(); if (resolve) resolve(v)\<close>: the oldest
  resolver, when there is one, is removed and called with \<open>v\<close>.
\<close>

definition shift_resolve :: "'a \<Rightarrow> 'a AsyncQueue \<Rightarrow> bool \<times> 'a AsyncQueue" where
  "shift_resolve v q =
     (case resolvers q of
        [] \<Rightarrow> (False, q)
      | r # rs \<Rightarrow> (True, q\<lparr> resolvers := rs, delivered := delivered q @ [(r, v)] \<rparr>))"

definition cleanupCache :: "int \<Rightarrow> 'a AsyncQueue \<Rightarrow> 'a AsyncQueue" where
  "cleanupCache now q =
     (case qcache q of
        None \<Rightarrow> q
      | Some m \<Rightarrow> q\<lparr> qcache := Some (filter (\<lambda>(key, entry). \<not> expires entry \<le> now) m) \<rparr>)"

text \<open>
  What \<open>push\<close> returns: a boolean, or (under the \<open>block\<close> strategy) the promise of
  \<open>pushWhenAvailable\<close>, already resolved or still pending.
\<close>

datatype pushResult = Returned bool | Promise "bool option"

text \<open>
  \<open>checkAndPush\<close> inside \<open>pushWhenAvailable\<close>: \<open>True\<close> when the item went in and
  the promise was resolved, \<open>False\<close> when a timer was set to try again.
\<close>

definition checkAndPush :: "'a \<Rightarrow> 'a AsyncQueue \<Rightarrow> bool \<times> 'a AsyncQueue" where
  "checkAndPush item q =
     (if lt_bound (qsize q) (maxSize q)
      then (True, snd (shift_resolve item (enqueueNode item q)))
      else (False, q))"

definition pushWhenAvailable :: "'a \<Rightarrow> 'a AsyncQueue \<Rightarrow> pushResult \<times> 'a AsyncQueue" where
  "pushWhenAvailable item q =
     (case checkAndPush item q of
        (True, q') \<Rightarrow> (Promise (Some True), q')
      | (False, q') \<Rightarrow> (Promise None, q'\<lparr> blocked := blocked q' @ [item] \<rparr>))"

text \<open>The timer of the \<open>i\<close>-th polling push fires and \<open>checkAndPush\<close> runs again.\<close>

definition retry :: "nat \<Rightarrow> 'a AsyncQueue \<Rightarrow> 'a AsyncQueue" where
  "retry i q =
     (if i < length (blocked q)
      then (case checkAndPush (blocked q ! i) q of
              (True, q') \<Rightarrow> q'\<lparr> blocked := take i (blocked q') @ drop (Suc i) (blocked q') \<rparr>
            | (False, q') \<Rightarrow> q')
      else q)"

text \<open>
  The first block of \<open>push\<close> (lines 65 to 76): with the cache enabled, a live
  entry under the item's key is a hit and its value is returned, anything else
  is a miss.
\<close>

definition dedup_lookup :: "'a \<Rightarrow> int \<Rightarrow> 'a AsyncQueue \<Rightarrow> 'a option \<times> 'a AsyncQueue" where
  "dedup_lookup item now q =
     (case (qcache q, cacheKeyFn q) of
        (Some m, Some keyFn) \<Rightarrow>
          (case map_of m (keyFn item) of
             Some entry \<Rightarrow>
               if expires entry > now
               then (Some (cached entry),
                     q\<lparr> metrics := (metrics q)\<lparr> cacheHits := cacheHits (metrics q) + 1 \<rparr> \<rparr>)
               else (None, q\<lparr> metrics := (metrics q)\<lparr> cacheMisses := cacheMisses (metrics q) + 1 \<rparr> \<rparr>)
           | None \<Rightarrow> (None, q\<lparr> metrics := (metrics q)\<lparr> cacheMisses := cacheMisses (metrics q) + 1 \<rparr> \<rparr>))
      | _ \<Rightarrow> (None, q))"

text \<open>The last blocks of \<open>push\<close> (lines 92 to 108): store in the cache, append, hand over.\<close>

definition store_and_append :: "'a \<Rightarrow> int \<Rightarrow> 'a AsyncQueue \<Rightarrow> pushResult \<times> 'a AsyncQueue" where
  "store_and_append item now q =
     (let q1 = (case (qcache q, cacheKeyFn q) of
                  (Some m, Some keyFn) \<Rightarrow>
                    cleanupCache now
                      (q\<lparr> qcache := Some (map_set (keyFn item)
                             \<lparr> cached = item,
                               expires = now + (case cacheTTL q of None \<Rightarrow> DEFAULT_CACHE_TTL | Some t \<Rightarrow> t) \<rparr>
                             m) \<rparr>)
                | _ \<Rightarrow> q);
          q2 = enqueueNode item q1
      in (Returned True, snd (shift_resolve item q2)))"

definition inc_dropped :: "'a AsyncQueue \<Rightarrow> 'a AsyncQueue" where
  "inc_dropped q = q\<lparr> metrics := (metrics q)\<lparr> dropped := dropped (metrics q) + 1 \<rparr> \<rparr>"

text \<open>\<open>push(item)\<close>; \<open>now\<close> is the value of \<open>Date.now()\<close> during the call.\<close>

definition push :: "'a \<Rightarrow> int \<Rightarrow> 'a AsyncQueue \<Rightarrow> pushResult \<times> 'a AsyncQueue" where
  "push item now q =
     (case dedup_lookup item now q of
        (Some v, q1) \<Rightarrow>
          (case shift_resolve v q1 of
             (True, q2) \<Rightarrow> (Returned True, q2)
           | (False, q2) \<Rightarrow> (Returned True, enqueueNode v q2))
      | (None, q1) \<Rightarrow>
          if ge_bound (qsize q1) (maxSize q1)
          then (case dropStrategy q1 of
                  Newest \<Rightarrow> (Returned False, inc_dropped q1)
                | Oldest \<Rightarrow> store_and_append item now (inc_dropped (snd (dequeueNode q1)))
                | Block \<Rightarrow> pushWhenAvailable item q1)
          else store_and_append item now q1)"

text \<open>
  \<open>next()\<close>, called by consumer \<open>cid\<close>. The test \<open>if (item)\<close> is JavaScript
  truthiness, given by \<open>truthy\<close> for the values of the item type (the number 0,
  the empty string and \<open>false\<close> are not truthy). The result is \<open>Some v\<close> when the
  promise is fulfilled with \<open>v\<close> at once, and \<open>None\<close> when the call is suspended
  and its resolver registered.
\<close>

definition next_item :: "('a \<Rightarrow> bool) \<Rightarrow> nat \<Rightarrow> 'a AsyncQueue \<Rightarrow> 'a option \<times> 'a AsyncQueue" where
  "next_item truthy cid q =
     (case dequeueNode q of
        (Some item, q1) \<Rightarrow>
          if truthy item then (Some item, q1)
          else (None, q1\<lparr> resolvers := resolvers q1 @ [cid] \<rparr>)
      | (None, q1) \<Rightarrow> (None, q1\<lparr> resolvers := resolvers q1 @ [cid] \<rparr>))"

definition getMetrics :: "'a AsyncQueue \<Rightarrow> QueueMetrics" where
  "getMetrics q = metrics q"

definition clear_queue :: "'a AsyncQueue \<Rightarrow> 'a AsyncQueue" where
  "clear_queue q =
     q\<lparr> nodes := [], qsize := 0, metrics := (metrics q)\<lparr> currentSize := 0 \<rparr> \<rparr>"

definition clearCache :: "'a AsyncQueue \<Rightarrow> 'a AsyncQueue" where
  "clearCache q = (case qcache q of None \<Rightarrow> q | Some m \<Rightarrow> q\<lparr> qcache := Some [] \<rparr>)"

text \<open>Deduplication is in force: the test \<open>this.cache && this.cacheKeyFn\<close> of \<open>push\<close>.\<close>

definition dedup_enabled :: "'a AsyncQueue \<Rightarrow> bool" where
  "dedup_enabled q = (qcache q \<noteq> None \<and> cacheKeyFn q \<noteq> None)"

text \<open>A sequence of calls and timer events on one queue.\<close>

datatype 'a queue_op =
    Push 'a int
  | Next nat
  | ClearQueue
  | ClearCache
  | Retry nat

fun apply_queue_op :: "('a \<Rightarrow> bool) \<Rightarrow> 'a queue_op \<Rightarrow> 'a AsyncQueue \<Rightarrow> 'a AsyncQueue" where
  "apply_queue_op truthy (Push item now) q = snd (push item now q)"
| "apply_queue_op truthy (Next cid) q = snd (next_item truthy cid q)"
| "apply_queue_op truthy ClearQueue q = clear_queue q"
| "apply_queue_op truthy ClearCache q = clearCache q"
| "apply_queue_op truthy (Retry i) q = retry i q"

definition run_queue :: "('a \<Rightarrow> bool) \<Rightarrow> 'a queue_op list \<Rightarrow> 'a AsyncQueue \<Rightarrow> 'a AsyncQueue" where
  "run_queue truthy ops q = fold (apply_queue_op truthy) ops q"

fun is_Push :: "'a queue_op \<Rightarrow> bool" where
  "is_Push (Push item now) = True"
| "is_Push _ = False"

text \<open>
  Concrete queues used to instantiate the theorems below: items are numbers,
  truthy when they are not 0; \<open>const_key\<close> is a key function that returns a
  constant; \<open>json_key\<close> stands for \<open>JSON.stringify\<close>.
\<close>

definition nonzero :: "int \<Rightarrow> bool" where
  "nonzero x = (x \<noteq> 0)"

definition const_key :: "int \<Rightarrow> string" where
  "const_key x = ''k''"

definition json_key :: "int \<Rightarrow> string" where
  "json_key x = (if x = 0 then ''0'' else if x = 1 then ''1'' else ''n'')"

definition opts_keyfn_only :: "int QueueOptions" where
  "opts_keyfn_only =
     \<lparr> opt_maxSize = None, opt_dropStrategy = None, opt_enableCache = None,
       opt_cacheKeyFn = Some const_key, opt_cacheTTL = None \<rparr>"

definition opts_enable_only :: "int QueueOptions" where
  "opts_enable_only =
     \<lparr> opt_maxSize = None, opt_dropStrategy = None, opt_enableCache = Some True,
       opt_cacheKeyFn = None, opt_cacheTTL = None \<rparr>"

definition opts_dedup_one :: "int QueueOptions" where
  "opts_dedup_one =
     \<lparr> opt_maxSize = Some (Finite 1), opt_dropStrategy = None, opt_enableCache = Some True,
       opt_cacheKeyFn = Some const_key, opt_cacheTTL = None \<rparr>"

definition opts_oldest_two :: "int QueueOptions" where
  "opts_oldest_two =
     \<lparr> opt_maxSize = Some (Finite 2), opt_dropStrategy = Some Oldest, opt_enableCache = None,
       opt_cacheKeyFn = None, opt_cacheTTL = None \<rparr>"

definition opts_dedup_const :: "int QueueOptions" where
  "opts_dedup_const =
     \<lparr> opt_maxSize = None, opt_dropStrategy = None, opt_enableCache = Some True,
       opt_cacheKeyFn = Some const_key, opt_cacheTTL = None \<rparr>"

text \<open>
  Two states of a queue agree on what concerns deduplication: the key function,
  whether there is a cache, and the two counters.
\<close>

definition same_dedup :: "'a AsyncQueue \<Rightarrow> 'a AsyncQueue \<Rightarrow> bool" where
  "same_dedup q q' =
     (cacheKeyFn q' = cacheKeyFn q \<and> (qcache q' = None) = (qcache q = None)
      \<and> cacheHits (metrics q') = cacheHits (metrics q)
      \<and> cacheMisses (metrics q') = cacheMisses (metrics q))"

section \<open>The worker pool (function work)\<close>

subsection \<open>Numbers\<close>

text \<open>
  \<open>Math.ceil(n / b)\<close> for an array length \<open>n\<close> and an integer \<open>b\<close>: a division by
  0 gives \<open>Infinity\<close>, or \<open>NaN\<close> when \<open>n\<close> is 0 too.
\<close>

datatype jsnum = Num int | PosInfinity | NaN

definition ceil_div :: "int \<Rightarrow> int \<Rightarrow> jsnum" where
  "ceil_div n b =
     (if b = 0 then (if n = 0 then NaN else PosInfinity) else Num (- ((- n) div b)))"

text \<open>\<open>a > c\<close>, \<open>c - a\<close> and \<open>Math.min(a, c)\<close> for an integer \<open>a\<close>; \<open>None\<close> is \<open>NaN\<close>.\<close>

fun gt_num :: "int \<Rightarrow> jsnum \<Rightarrow> bool" where
  "gt_num a (Num n) = (a > n)"
| "gt_num a PosInfinity = False"
| "gt_num a NaN = False"

fun minus_num :: "jsnum \<Rightarrow> int \<Rightarrow> jsnum" where
  "minus_num (Num n) a = Num (n - a)"
| "minus_num PosInfinity a = PosInfinity"
| "minus_num NaN a = NaN"

fun min_num :: "int \<Rightarrow> jsnum \<Rightarrow> int option" where
  "min_num a (Num n) = Some (min a n)"
| "min_num a PosInfinity = Some a"
| "min_num a NaN = None"

text \<open>
  How often \<open>Array.from({ length: l }, f)\<close> and \<open>for (i = 0; i < l; i++)\<close> run
  their body: not at all for \<open>NaN\<close> or a negative number.
\<close>

fun times_of :: "int option \<Rightarrow> nat" where
  "times_of (Some n) = nat n"
| "times_of None = 0"

subsection \<open>Data\<close>

datatype concurrency = Fixed int | Range int int

text \<open>
  The options that \<open>work\<close> reads. The callbacks \<open>onProgress\<close> and \<open>onError\<close> are
  given or not; their calls are recorded in the state (they are taken not to
  throw).
\<close>

record WorkOptions =
  opt_onProgress :: bool
  opt_onError :: bool
  opt_enableBatching :: "bool option"
  opt_batchSize :: "int option"

record WorkMetrics =
  completed :: int
  failed :: int
  total :: int
  currentConcurrency :: int

text \<open>The records pushed to \<open>resultQueue\<close>: \<open>{ success, error? }\<close>.\<close>

record 'e item_result =
  success :: bool
  error :: "'e option"

text \<open>
  The constants of one invocation: \<open>fn_settles item\<close> tells how the promise
  \<open>fn(item)\<close> settles, \<open>None\<close> for fulfilled and \<open>Some e\<close> for rejected with \<open>e\<close>
  (when it settles is decided by the events below); \<open>isUndefined\<close> tells which
  items are the value \<open>undefined\<close>.
\<close>

record ('a, 'e) work_env =
  fn_settles :: "'a \<Rightarrow> 'e option"
  isUndefined :: "'a \<Rightarrow> bool"
  total_items :: int
  minConcurrency :: int
  maxConcurrency :: int
  batchSize :: int
  enableBatching :: bool
  onProgress_given :: bool
  onError_given :: bool

text \<open>
  An invocation of \<open>worker()\<close> is suspended at \<open>await processBatch(batch)\<close>, with
  the items of its batch and which of them have settled, or it has returned.
\<close>

datatype 'a worker = Awaiting "('a \<times> bool) list" | Finished

text \<open>
  The variables of \<open>work\<close>. \<open>workers\<close> lists the invocations of \<open>worker()\<close> in the
  order of their start; \<open>awaited\<close> is the number of promises in the array
  \<open>workers\<close> at the moment \<open>Promise.all(workers)\<close> is called (\<open>Promise.all\<close> reads
  its argument once, when it is called).
\<close>

record ('a, 'e) pool =
  pending :: "'a list"
  completed_items :: int
  failed_items :: int
  activeWorkers :: int
  workers :: "'a worker list"
  awaited :: nat
  resultQueue :: "'e item_result AsyncQueue"
  onError_calls :: "('e \<times> 'a) list"
  onProgress_calls :: "(int \<times> int) list"

subsection \<open>The synchronous sections\<close>

text \<open>
  \<open>worker\<close>, from the head of its \<open>while\<close> loop to its next \<open>await\<close> or to its
  return; the result is the new status of this worker. \<open>pending.pop()\<close> takes
  the last element. With batching and a batch size below 1 the batch stays empty
  and the loop repeats without any change: the result is \<open>None\<close>.
\<close>

function worker_loop :: "('a, 'e) work_env \<Rightarrow> ('a, 'e) pool \<Rightarrow> ('a worker \<times> ('a, 'e) pool) option" where
  "worker_loop env s =
     (if pending s = [] then Some (Finished, s\<lparr> activeWorkers := activeWorkers s - 1 \<rparr>)
      else if gt_num (activeWorkers s) (ceil_div (int (length (pending s))) (batchSize env))
              \<and> activeWorkers s > minConcurrency env
      then Some (Finished, s\<lparr> activeWorkers := activeWorkers s - 1 \<rparr>)
      else if enableBatching env
      then (let n = min (nat (batchSize env)) (length (pending s));
                batch = take n (rev (pending s))
            in if batch = [] then None
               else Some (Awaiting (map (\<lambda>item. (item, False)) batch),
                          s\<lparr> pending := take (length (pending s) - n) (pending s) \<rparr>))
      else (let item = last (pending s);
                s1 = s\<lparr> pending := butlast (pending s) \<rparr>
            in if isUndefined env item then worker_loop env s1
               else Some (Awaiting [(item, False)], s1)))"
  by pat_completeness auto
termination
  by (relation "measure (\<lambda>(env, s). length (pending s))") auto

declare worker_loop.simps [simp del]

text \<open>A call \<open>worker()\<close>: it runs up to its first \<open>await\<close> or to its return.\<close>

definition start_worker :: "('a, 'e) work_env \<Rightarrow> ('a, 'e) pool \<Rightarrow> ('a, 'e) pool option" where
  "start_worker env s =
     (case worker_loop env (s\<lparr> activeWorkers := activeWorkers s + 1 \<rparr>) of
        None \<Rightarrow> None
      | Some (status, s1) \<Rightarrow> Some (s1\<lparr> workers := workers s1 @ [status] \<rparr>))"

fun start_workers :: "nat \<Rightarrow> ('a, 'e) work_env \<Rightarrow> ('a, 'e) pool \<Rightarrow> ('a, 'e) pool option" where
  "start_workers 0 env s = Some s"
| "start_workers (Suc n) env s =
     (case start_worker env s of None \<Rightarrow> None | Some s1 \<Rightarrow> start_workers n env s1)"

text \<open>
  The body of the callback that \<open>processBatch\<close> maps over the batch, after
  \<open>await fn(item)\<close> has settled.
\<close>

definition item_settled :: "('a, 'e) work_env \<Rightarrow> 'a \<Rightarrow> ('a, 'e) pool \<Rightarrow> ('a, 'e) pool" where
  "item_settled env item s =
     (let s1 = (case fn_settles env item of
                  None \<Rightarrow>
                    s\<lparr> completed_items := completed_items s + 1,
                        resultQueue := snd (push \<lparr> success = True, error = None \<rparr> 0 (resultQueue s)) \<rparr>
                | Some e \<Rightarrow>
                    s\<lparr> failed_items := failed_items s + 1,
                        resultQueue := snd (push \<lparr> success = False, error = Some e \<rparr> 0 (resultQueue s)),
                        onError_calls := (if onError_given env then onError_calls s @ [(e, item)]
                                          else onError_calls s) \<rparr>)
      in if onProgress_given env
         then s1\<lparr> onProgress_calls := onProgress_calls s1
                     @ [(completed_items s1 + failed_items s1, total_items env)] \<rparr>
         else s1)"

text \<open>The callback of \<open>setInterval\<close>.\<close>

definition scaler :: "('a, 'e) work_env \<Rightarrow> ('a, 'e) pool \<Rightarrow> ('a, 'e) pool option" where
  "scaler env s =
     (let needed = min_num (maxConcurrency env - activeWorkers s)
                     (minus_num (ceil_div (int (length (pending s))) (batchSize env))
                        (activeWorkers s))
      in if (case needed of None \<Rightarrow> False | Some n \<Rightarrow> n > 0)
            \<and> activeWorkers s < maxConcurrency env
         then start_workers (times_of needed) env s
         else Some s)"

subsection \<open>Events\<close>

text \<open>
  JavaScript runs the synchronous sections one at a time. What happens between
  them is an event: the interval timer fires (\<open>Tick\<close>), or the promise \<open>fn(item)\<close>
  of item \<open>i\<close> in the batch of worker \<open>w\<close> settles (\<open>Settle w i\<close>); the callback then
  runs, and when it was the last of its batch, \<open>processBatch\<close> resolves and the
  worker goes on. Any order of events is possible: when a promise of \<open>fn\<close>
  settles is up to \<open>fn\<close>. An event that names no suspended item changes nothing.
  The callback and the continuation of the worker are taken as one step: the
  callback writes the counters, the queue of results and the records of calls,
  the worker loop reads and writes the pending list, \<open>activeWorkers\<close> and the
  workers, so a callback of another item that ran between the two would leave
  the same state.
\<close>

datatype event = Tick | Settle nat nat

definition settle :: "('a, 'e) work_env \<Rightarrow> nat \<Rightarrow> nat \<Rightarrow> ('a, 'e) pool \<Rightarrow> ('a, 'e) pool option" where
  "settle env w i s =
     (if w < length (workers s)
      then (case workers s ! w of
              Finished \<Rightarrow> Some s
            | Awaiting batch \<Rightarrow>
                if i < length batch \<and> \<not> snd (batch ! i)
                then (let item = fst (batch ! i);
                          s1 = item_settled env item s;
                          batch1 = batch[i := (item, True)]
                      in if list_all snd batch1
                         then (case worker_loop env s1 of
                                 None \<Rightarrow> None
                               | Some (status, s2) \<Rightarrow>
                                   Some (s2\<lparr> workers := (workers s2)[w := status] \<rparr>))
                         else Some (s1\<lparr> workers := (workers s1)[w := Awaiting batch1] \<rparr>))
                else Some s)
      else Some s)"

fun step :: "('a, 'e) work_env \<Rightarrow> event \<Rightarrow> ('a, 'e) pool \<Rightarrow> ('a, 'e) pool option" where
  "step env Tick s = scaler env s"
| "step env (Settle w i) s = settle env w i s"

subsection \<open>The invocation\<close>

text \<open>
  What a call of \<open>work\<close> has done after a sequence of events: its promise is
  resolved with the metrics, or it is still pending, or a worker is spinning in
  its loop and the program hangs.
\<close>

datatype work_result = Resolved WorkMetrics | StillPending | Hangs

definition all_awaited_returned :: "('a, 'e) pool \<Rightarrow> bool" where
  "all_awaited_returned s = list_all (\<lambda>st. st = Finished) (take (awaited s) (workers s))"

definition read_metrics :: "('a, 'e) work_env \<Rightarrow> ('a, 'e) pool \<Rightarrow> WorkMetrics" where
  "read_metrics env s =
     \<lparr> completed = completed_items s, failed = failed_items s, total = total_items env,
       currentConcurrency = activeWorkers s \<rparr>"

text \<open>
  \<open>await Promise.all(workers)\<close> resumes when the awaited workers have all
  returned; the metrics are read in the state at that moment. In JavaScript the
  continuation of \<open>work\<close> runs a few microtask turns after the last awaited
  worker has returned, so the callbacks of promises of \<open>fn\<close> that had settled
  in the same turn run before the metrics are read, and those items are counted
  too. The two agree whenever no other promise of \<open>fn\<close> is settled at that
  moment; in particular when no item is in progress any more.
\<close>

fun run_events :: "('a, 'e) work_env \<Rightarrow> event list \<Rightarrow> ('a, 'e) pool \<Rightarrow> work_result \<times> ('a, 'e) pool" where
  "run_events env [] s =
     (if all_awaited_returned s then (Resolved (read_metrics env s), s) else (StillPending, s))"
| "run_events env (e # es) s =
     (if all_awaited_returned s then (Resolved (read_metrics env s), s)
      else (case step env e s of None \<Rightarrow> (Hangs, s) | Some s1 \<Rightarrow> run_events env es s1))"

text \<open>The set-up of \<open>work\<close> (lines 218 to 233) and its initial workers.\<close>

definition work_env_of ::
  "concurrency \<Rightarrow> 'a list \<Rightarrow> ('a \<Rightarrow> 'e option) \<Rightarrow> WorkOptions option \<Rightarrow> ('a \<Rightarrow> bool)
     \<Rightarrow> ('a, 'e) work_env" where
  "work_env_of conc items fn options undef =
     (let bs = (case options of None \<Rightarrow> 1
                | Some opt \<Rightarrow> (case opt_batchSize opt of None \<Rightarrow> 1 | Some b \<Rightarrow> b))
      in \<lparr> fn_settles = fn,
           isUndefined = undef,
           total_items = int (length items),
           minConcurrency = (case conc of Fixed n \<Rightarrow> n | Range lo hi \<Rightarrow> lo),
           maxConcurrency = (case conc of Fixed n \<Rightarrow> n | Range lo hi \<Rightarrow> hi),
           batchSize = bs,
           enableBatching = (case options of None \<Rightarrow> bs > 1
                             | Some opt \<Rightarrow> (case opt_enableBatching opt of None \<Rightarrow> bs > 1 | Some b \<Rightarrow> b)),
           onProgress_given = (case options of None \<Rightarrow> False | Some opt \<Rightarrow> opt_onProgress opt),
           onError_given = (case options of None \<Rightarrow> False | Some opt \<Rightarrow> opt_onError opt) \<rparr>)"

definition initial_pool :: "'a list \<Rightarrow> ('a, 'e) pool" where
  "initial_pool items =
     \<lparr> pending = items, completed_items = 0, failed_items = 0, activeWorkers = 0,
       workers = [], awaited = 0,
       resultQueue = new_AsyncQueue (\<lambda>r. []) None,
       onError_calls = [], onProgress_calls = [] \<rparr>"

definition work_start :: "('a, 'e) work_env \<Rightarrow> 'a list \<Rightarrow> ('a, 'e) pool option" where
  "work_start env items =
     (let initialWorkers = min_num (minConcurrency env)
                             (ceil_div (total_items env) (batchSize env))
      in case start_workers (times_of initialWorkers) env (initial_pool items) of
           None \<Rightarrow> None
         | Some s \<Rightarrow> Some (s\<lparr> awaited := length (workers s) \<rparr>))"

text \<open>
  \<open>work(concurrency, items, fn, options)\<close> under a sequence of events, with the
  state of the pool at the end.
\<close>

definition work ::
  "concurrency \<Rightarrow> 'a list \<Rightarrow> ('a \<Rightarrow> 'e option) \<Rightarrow> WorkOptions option \<Rightarrow> ('a \<Rightarrow> bool)
     \<Rightarrow> event list \<Rightarrow> work_result \<times> ('a, 'e) pool" where
  "work conc items fn options undef events =
     (let env = work_env_of conc items fn options undef
      in case work_start env items of
           None \<Rightarrow> (Hangs, initial_pool items)
         | Some s \<Rightarrow> run_events env events s)"

text \<open>
  Concrete invocations used below: the items are numbers, none of them
  \<open>undefined\<close>; \<open>always_resolves\<close> fulfils every promise, \<open>rejects_259\<close> rejects for
  the items 2, 5 and 9.
\<close>

definition never_undefined :: "int \<Rightarrow> bool" where
  "never_undefined x = False"

definition always_resolves :: "int \<Rightarrow> string option" where
  "always_resolves x = None"

definition rejects_259 :: "int \<Rightarrow> string option" where
  "rejects_259 x = (if x = 2 \<or> x = 5 \<or> x = 9 then Some ''boom'' else None)"

definition opts_onError :: WorkOptions where
  "opts_onError =
     \<lparr> opt_onProgress = False, opt_onError = True, opt_enableBatching = None,
       opt_batchSize = None \<rparr>"

subsection \<open>Quantities for the analysis of a run\<close>

text \<open>The worker is suspended; the items of its batch that have not settled.\<close>

definition is_Awaiting :: "'a worker \<Rightarrow> bool" where
  "is_Awaiting st = (case st of Awaiting batch \<Rightarrow> True | Finished \<Rightarrow> False)"

definition unsettled :: "'a worker \<Rightarrow> 'a list" where
  "unsettled st =
     (case st of Awaiting batch \<Rightarrow> map fst (filter (\<lambda>p. \<not> snd p) batch) | Finished \<Rightarrow> [])"

text \<open>How many items of a list satisfy \<open>P\<close>; the same over the unsettled items of all workers.\<close>

definition count_items :: "('a \<Rightarrow> bool) \<Rightarrow> 'a list \<Rightarrow> int" where
  "count_items P xs = int (length (filter P xs))"

definition in_progress :: "('a \<Rightarrow> bool) \<Rightarrow> 'a worker list \<Rightarrow> int" where
  "in_progress P ws = sum_list (map (\<lambda>st. count_items P (unsettled st)) ws)"

text \<open>The promise \<open>fn(x)\<close> is fulfilled, or it is rejected.\<close>

definition resolves :: "('a, 'e) work_env \<Rightarrow> 'a \<Rightarrow> bool" where
  "resolves env x = (fn_settles env x = None)"

definition rejects :: "('a, 'e) work_env \<Rightarrow> 'a \<Rightarrow> bool" where
  "rejects env x = (fn_settles env x \<noteq> None)"

text \<open>
  An invocation with a fixed number of workers, at least one, a batch size of at
  least 1 and no \<open>undefined\<close> among the items.
\<close>

definition env_fixed :: "('a, 'e) work_env \<Rightarrow> 'a list \<Rightarrow> bool" where
  "env_fixed env items =
     (minConcurrency env = maxConcurrency env \<and> 1 \<le> minConcurrency env
      \<and> 1 \<le> batchSize env \<and> total_items env = int (length items)
      \<and> list_all (\<lambda>x. \<not> isUndefined env x) items)"

text \<open>
  What holds of the pool between two synchronous sections of such an invocation:
  the pending list is a prefix of the items; \<open>activeWorkers\<close> counts the
  suspended workers; no worker has returned while items are pending; every
  item that resolves (rejects) is pending, in progress or counted in
  \<open>completed\<close> (\<open>failed\<close>); \<open>onError\<close> was called once per failure.
\<close>

definition core_inv :: "('a, 'e) work_env \<Rightarrow> 'a list \<Rightarrow> ('a, 'e) pool \<Rightarrow> bool" where
  "core_inv env items s =
     ((\<exists>k. pending s = take k items)
      \<and> activeWorkers s = count_items is_Awaiting (workers s)
      \<and> (pending s \<noteq> [] \<longrightarrow> list_all is_Awaiting (workers s))
      \<and> completed_items s + count_items (resolves env) (pending s)
            + in_progress (resolves env) (workers s) = count_items (resolves env) items
      \<and> failed_items s + count_items (rejects env) (pending s)
            + in_progress (rejects env) (workers s) = count_items (rejects env) items
      \<and> (onError_given env \<longrightarrow> int (length (onError_calls s)) = failed_items s))"

text \<open>The same while the first \<open>j\<close> initial workers have been started.\<close>

definition start_inv :: "('a, 'e) work_env \<Rightarrow> 'a list \<Rightarrow> nat \<Rightarrow> ('a, 'e) pool \<Rightarrow> bool" where
  "start_inv env items j s =
     (core_inv env items s \<and> length (workers s) = j \<and> list_all is_Awaiting (workers s)
      \<and> int (length items) - int j * batchSize env \<le> int (length (pending s)))"

text \<open>The same once \<open>Promise.all\<close> has been called: every worker is awaited.\<close>

definition run_inv :: "('a, 'e) work_env \<Rightarrow> 'a list \<Rightarrow> ('a, 'e) pool \<Rightarrow> bool" where
  "run_inv env items s =
     (core_inv env items s \<and> awaited s = length (workers s)
      \<and> int (awaited s) \<le> minConcurrency env
      \<and> (int (awaited s) = minConcurrency env
           \<or> - ((- total_items env) div batchSize env) \<le> int (awaited s)))"

section \<open>Properties of the LRU cache\<close>

subsection \<open>The association list\<close>

lemma fold_invariant:
  "P c \<Longrightarrow> (\<And>x c'. P c' \<Longrightarrow> P (f x c')) \<Longrightarrow> P (fold f xs c)"
  by (induction xs arbitrary: c) auto

lemma map_delete_length_le: "length (map_delete k m) \<le> length m"
  by (simp add: map_delete_def)

lemma map_delete_length_less:
  "map_of m k = Some e \<Longrightarrow> length (map_delete k m) < length m"
proof (induction m)
  case Nil
  then show ?case by simp
next
  case (Cons p m)
  show ?case
  proof (cases "fst p = k")
    case True
    have "length (filter (\<lambda>q. fst q \<noteq> k) m) \<le> length m" by simp
    with True show ?thesis by (simp add: map_delete_def less_Suc_eq_le)
  next
    case False
    with Cons show ?thesis by (cases p) (simp add: map_delete_def)
  qed
qed

lemma map_delete_absent: "map_of m k = None \<Longrightarrow> map_delete k m = m"
  by (induction m) (auto simp: map_delete_def split: if_splits)

lemma map_of_map_delete:
  "map_of (map_delete k m) k' = (if k' = k then None else map_of m k')"
  by (induction m) (auto simp: map_delete_def)

lemma map_set_length_present:
  "map_of m k = Some e \<Longrightarrow> length (map_set k e' m) = length m"
  by (induction m) (auto split: if_splits)

lemma map_set_length_le: "length (map_set k e m) \<le> Suc (length m)"
  by (induction m) auto

lemma map_of_map_set:
  "map_of (map_set k e m) k' = (if k' = k then Some e else map_of m k')"
  by (induction m) auto

subsection \<open>Deletion and eviction\<close>

lemma delete_entry_cache: "cache (snd (delete_entry k c)) = map_delete k (cache c)"
  by (simp add: delete_entry_def fire_onEvict_def Let_def map_delete_absent split: option.splits)

lemma delete_entry_maxEntries: "maxEntries (snd (delete_entry k c)) = maxEntries c"
  by (simp add: delete_entry_def fire_onEvict_def Let_def split: option.splits)

lemma delete_entry_unchanged: "map_of (cache c) k = None \<Longrightarrow> snd (delete_entry k c) = c"
  by (simp add: delete_entry_def)

lemma evictOne_no_progress:
  "\<not> length (cache (evictOne c)) < length (cache c) \<Longrightarrow> evictOne c = c"
proof (cases "fst (oldest_scan (cache c))")
  case None
  then show ?thesis by (simp add: evictOne_def)
next
  case (Some k)
  assume np: "\<not> length (cache (evictOne c)) < length (cache c)"
  show ?thesis
  proof (cases "k \<noteq> [] \<and> map_of (cache c) k \<noteq> None")
    case True
    then obtain e where "map_of (cache c) k = Some e" by auto
    then have "length (map_delete k (cache c)) < length (cache c)"
      by (rule map_delete_length_less)
    with Some True np show ?thesis by (simp add: evictOne_def delete_entry_cache)
  next
    case False
    with Some show ?thesis by (auto simp: evictOne_def delete_entry_unchanged)
  qed
qed


lemma scan_step_cases:
  "scan_step p (ok, b) = (ok, b) \<or> (\<exists>b'. scan_step p (ok, b) = (Some (fst p), b'))"
  by (cases p) (simp add: scan_step_def)

lemma oldest_scan_fold_key:
  "fst (fold scan_step m (Some k, b)) \<in> Some ` (insert k (fst ` set m))"
proof (induction m arbitrary: k b)
  case Nil
  show ?case by simp
next
  case (Cons p m)
  from scan_step_cases [of p "Some k" b] show ?case
  proof
    assume "scan_step p (Some k, b) = (Some k, b)"
    with Cons [of k b] show ?thesis by auto
  next
    assume "\<exists>b'. scan_step p (Some k, b) = (Some (fst p), b')"
    then obtain b' where "scan_step p (Some k, b) = (Some (fst p), b')" ..
    with Cons [of "fst p" b'] show ?thesis by auto
  qed
qed

lemma oldest_scan_nonempty:
  "m \<noteq> [] \<Longrightarrow> \<exists>k. fst (oldest_scan m) = Some k \<and> k \<in> fst ` set m"
proof (cases m)
  case Nil
  assume "m \<noteq> []"
  with Nil show ?thesis by simp
next
  case (Cons p rest)
  obtain key entry where p: "p = (key, entry)" by (cases p)
  have "fst (oldest_scan m) \<in> Some ` (insert key (fst ` set rest))"
    unfolding oldest_scan_def Cons p using oldest_scan_fold_key [of rest key "Finite (lastAccess entry)"]
    by (simp add: scan_step_def)
  with Cons p show ?thesis by auto
qed

lemma evictExpired_invariant:
  assumes "P c" and "\<And>k c'. P c' \<Longrightarrow> P (snd (delete_entry k c'))"
  shows "P (evictExpired now c)"
  unfolding evictExpired_def
  by (rule fold_invariant [where P = P, OF assms(1)]) (auto simp: assms(2) split: prod.splits)

lemma evictExpired_maxEntries: "maxEntries (evictExpired now c) = maxEntries c"
  by (rule evictExpired_invariant [where P = "\<lambda>c'. maxEntries c' = maxEntries c"])
     (simp_all add: delete_entry_maxEntries)

lemma evictExpired_no_key:
  "map_of (cache c) k = None \<Longrightarrow> map_of (cache (evictExpired now c)) k = None"
  by (rule evictExpired_invariant [where P = "\<lambda>c'. map_of (cache c') k = None"])
     (simp_all add: delete_entry_cache map_of_map_delete)

lemma evictOne_maxEntries: "maxEntries (evictOne c) = maxEntries c"
  by (simp add: evictOne_def delete_entry_maxEntries split: option.splits)

lemma evictOne_no_key:
  "map_of (cache c) k = None \<Longrightarrow> map_of (cache (evictOne c)) k = None"
  by (simp add: evictOne_def delete_entry_cache map_of_map_delete split: option.splits)

lemma evictLoop_result:
  "evictLoop s c = Some c' \<Longrightarrow>
     maxEntries c' = maxEntries c \<and>
     (\<not> ge_bound (int (length (cache c'))) (maxEntries c') \<or> length (cache c') = 0)"
proof (induction s c rule: evictLoop.induct)
  case (1 entrySize c)
  show ?case
  proof (cases "ge_bound (int (length (cache c))) (maxEntries c)
                 \<or> gt_bound (currentBytes c + entrySize) (maxBytes c)")
    case False
    with "1.prems" have "c' = c" by (simp add: evictLoop.simps [of entrySize c])
    with False show ?thesis by simp
  next
    case cond: True
    show ?thesis
    proof (cases "length (cache c) = 0")
      case True
      with cond "1.prems" have "c' = c" by (simp add: evictLoop.simps [of entrySize c])
      with True show ?thesis by simp
    next
      case nonempty: False
      show ?thesis
      proof (cases "length (cache (evictOne c)) < length (cache c)")
        case True
        with cond nonempty "1.prems" have "evictLoop entrySize (evictOne c) = Some c'"
          by (simp add: evictLoop.simps [of entrySize c])
        with "1.IH" [OF cond nonempty True] show ?thesis
          by (simp add: evictOne_maxEntries)
      next
        case False
        with cond nonempty "1.prems" show ?thesis
          by (simp add: evictLoop.simps [of entrySize c])
      qed
    qed
  qed
qed

lemma evictOne_progress:
  assumes "cache c \<noteq> []" and "map_of (cache c) [] = None"
  shows "length (cache (evictOne c)) < length (cache c)"
proof -
  from oldest_scan_nonempty [OF assms(1)] obtain k
    where k: "fst (oldest_scan (cache c)) = Some k" "k \<in> fst ` set (cache c)" by blast
  from k(2) assms(2) have ne: "k \<noteq> []" by (force simp: map_of_eq_None_iff)
  from k(2) obtain e where "map_of (cache c) k = Some e"
    by (cases "map_of (cache c) k") (auto simp: map_of_eq_None_iff)
  then have "length (map_delete k (cache c)) < length (cache c)"
    by (rule map_delete_length_less)
  with k(1) ne show ?thesis by (simp add: evictOne_def delete_entry_cache)
qed

lemma evictLoop_returns:
  "map_of (cache c) [] = None \<Longrightarrow>
     \<exists>c'. evictLoop s c = Some c' \<and> map_of (cache c') [] = None"
proof (induction s c rule: evictLoop.induct)
  case (1 entrySize c)
  show ?case
  proof (cases "(ge_bound (int (length (cache c))) (maxEntries c)
                 \<or> gt_bound (currentBytes c + entrySize) (maxBytes c)) \<and> length (cache c) \<noteq> 0")
    case False
    then have "evictLoop entrySize c = Some c"
      by (subst evictLoop.simps) auto
    with "1.prems" show ?thesis by simp
  next
    case True
    then have ne: "cache c \<noteq> []" by auto
    have less: "length (cache (evictOne c)) < length (cache c)"
      by (rule evictOne_progress [OF ne "1.prems"])
    from True have cond: "ge_bound (int (length (cache c))) (maxEntries c)
                 \<or> gt_bound (currentBytes c + entrySize) (maxBytes c)"
      and nz: "length (cache c) \<noteq> 0" by auto
    have "evictLoop entrySize c = evictLoop entrySize (evictOne c)"
      using cond nz less by (subst evictLoop.simps) simp
    with "1.IH" [OF cond nz less evictOne_no_key [OF "1.prems"]]
    show ?thesis by simp
  qed
qed

lemma set_entry_size:
  assumes "set_entry key v now c = Some c'" and "maxEntries c = Finite N" and "1 \<le> N"
  shows "maxEntries c' = Finite N \<and> int (length (cache c')) \<le> N"
proof -
  define c1 where "c1 = (case map_of (cache c) key of
                  Some existing \<Rightarrow> c\<lparr>currentBytes := currentBytes c - sizeOf c (val existing)\<rparr>
                | None \<Rightarrow> c)"
  have m1: "maxEntries c1 = Finite N"
    using assms(2) by (simp add: c1_def split: option.splits)
  from assms(1) obtain c2 where loop: "evictLoop (sizeOf (evictExpired now c1) v) (evictExpired now c1) = Some c2"
    and c': "c' = c2\<lparr>cache := map_set key \<lparr>val = v, lastAccess = now, createdAt = now\<rparr> (cache c2),
                      currentBytes := currentBytes c2 + sizeOf c2 v\<rparr>"
    unfolding set_entry_def evictToMakeRoomFor_def Let_def c1_def [symmetric]
    by (auto split: option.splits)
  from evictLoop_result [OF loop] m1
  have m2: "maxEntries c2 = Finite N"
    and small: "int (length (cache c2)) < N \<or> length (cache c2) = 0"
    by (auto simp: evictExpired_maxEntries)
  have "length (cache c') \<le> Suc (length (cache c2))"
    by (simp add: c' map_set_length_le)
  with small assms(3) have "int (length (cache c')) \<le> N" by auto
  with m2 c' show ?thesis by simp
qed

lemma set_entry_returns:
  assumes "map_of (cache c) [] = None" and "key \<noteq> []"
  shows "\<exists>c'. set_entry key v now c = Some c' \<and> map_of (cache c') [] = None"
proof -
  define c1 where "c1 = (case map_of (cache c) key of
                  Some existing \<Rightarrow> c\<lparr>currentBytes := currentBytes c - sizeOf c (val existing)\<rparr>
                | None \<Rightarrow> c)"
  have "map_of (cache c1) [] = None"
    using assms(1) by (simp add: c1_def split: option.splits)
  then have "map_of (cache (evictExpired now c1)) [] = None" by (rule evictExpired_no_key)
  from evictLoop_returns [OF this, of "sizeOf (evictExpired now c1) v"] obtain c2
    where "evictLoop (sizeOf (evictExpired now c1) v) (evictExpired now c1) = Some c2"
      and "map_of (cache c2) [] = None" by blast
  with assms(2) show ?thesis
    unfolding set_entry_def evictToMakeRoomFor_def Let_def c1_def [symmetric]
    by (simp add: map_of_map_set)
qed

subsection \<open>Sequences of operations\<close>

lemma clear_cache: "cache (clear c) = []"
  by (simp add: clear_def Let_def)

lemma clear_maxEntries: "maxEntries (clear c) = maxEntries c"
proof -
  have "maxEntries (fold (\<lambda>(key, entry) c'. fire_onEvict key (val entry) c') (cache c) c) = maxEntries c"
    by (rule fold_invariant [where P = "\<lambda>c'. maxEntries c' = maxEntries c"])
       (auto simp: fire_onEvict_def)
  then show ?thesis by (simp add: clear_def Let_def)
qed

lemma apply_op_not_Set:
  assumes "\<not> is_Set op"
  shows "\<exists>c'. apply_op op c = Some c' \<and> maxEntries c' = maxEntries c
           \<and> length (cache c') \<le> length (cache c)
           \<and> (\<forall>k. map_of (cache c) k = None \<longrightarrow> map_of (cache c') k = None)"
proof (cases op)
  case (Get key now)
  show ?thesis
  proof (cases "map_of (cache c) key")
    case None
    with Get show ?thesis by (simp add: get_def)
  next
    case (Some entry)
    with Get show ?thesis
      by (auto simp: get_def delete_entry_cache delete_entry_maxEntries map_delete_length_le
            map_of_map_delete map_of_map_set map_set_length_present)
  qed
next
  case (Set key v now)
  with assms show ?thesis by simp
next
  case (Has key now)
  then show ?thesis
    by (auto simp: has_def delete_entry_cache delete_entry_maxEntries map_delete_length_le
          map_of_map_delete split: option.splits)
next
  case (Peek key)
  then show ?thesis by simp
next
  case (Delete key)
  then show ?thesis
    by (simp add: delete_entry_cache delete_entry_maxEntries map_delete_length_le map_of_map_delete)
next
  case Clear
  then show ?thesis by (simp add: clear_cache clear_maxEntries)
qed

lemma apply_op_size:
  assumes "apply_op op c = Some c'" and "maxEntries c = Finite N" and "1 \<le> N"
    and "int (length (cache c)) \<le> N"
  shows "maxEntries c' = Finite N \<and> int (length (cache c')) \<le> N"
proof (cases "is_Set op")
  case True
  then obtain key v now where "op = Set key v now" by (cases op) auto
  with assms(1) have "set_entry key v now c = Some c'" by simp
  from set_entry_size [OF this assms(2,3)] show ?thesis .
next
  case False
  from apply_op_not_Set [OF False, of c] assms show ?thesis by auto
qed

lemma run_ops_size:
  "run_ops ops c = Some c' \<Longrightarrow> maxEntries c = Finite N \<Longrightarrow> 1 \<le> N \<Longrightarrow>
     int (length (cache c)) \<le> N \<Longrightarrow> int (length (cache c')) \<le> N"
proof (induction ops arbitrary: c)
  case Nil
  then show ?case by simp
next
  case (Cons op ops)
  from Cons.prems(1) obtain c1 where step: "apply_op op c = Some c1"
    and rest: "run_ops ops c1 = Some c'"
    by (auto split: option.splits)
  from apply_op_size [OF step Cons.prems(2,3,4)]
  have "maxEntries c1 = Finite N" and "int (length (cache c1)) \<le> N" by auto
  from Cons.IH [OF rest this(1) Cons.prems(3) this(2)] show ?case .
qed

lemma apply_op_returns:
  assumes "map_of (cache c) [] = None" and "\<And>key v now. op = Set key v now \<Longrightarrow> key \<noteq> []"
  shows "\<exists>c'. apply_op op c = Some c' \<and> map_of (cache c') [] = None"
proof (cases "is_Set op")
  case True
  then obtain key v now where op: "op = Set key v now" by (cases op) auto
  from set_entry_returns [OF assms(1) assms(2) [OF op]] op show ?thesis by simp
next
  case False
  from apply_op_not_Set [OF False, of c] assms(1) show ?thesis by auto
qed

lemma run_ops_returns:
  "map_of (cache c) [] = None \<Longrightarrow> (\<forall>key v now. Set key v now \<in> set ops \<longrightarrow> key \<noteq> []) \<Longrightarrow>
     \<exists>c'. run_ops ops c = Some c'"
proof (induction ops arbitrary: c)
  case Nil
  show ?case by simp
next
  case (Cons op ops)
  from apply_op_returns [of c op] Cons.prems obtain c1
    where step: "apply_op op c = Some c1" and nk: "map_of (cache c1) [] = None" by auto
  from Cons.IH [OF nk] Cons.prems(2) obtain c' where "run_ops ops c1 = Some c'" by auto
  with step show ?case by simp
qed

lemma run_ops_absent:
  "map_of (cache c) k = None \<Longrightarrow> \<forall>op \<in> set ops. \<not> is_Set op \<Longrightarrow>
     run_ops ops c = Some c' \<Longrightarrow> map_of (cache c') k = None"
proof (induction ops arbitrary: c)
  case Nil
  then show ?case by simp
next
  case (Cons op ops)
  from Cons.prems(2) have ns: "\<not> is_Set op" by simp
  from apply_op_not_Set [OF ns, of c] Cons.prems(1) obtain c1
    where step: "apply_op op c = Some c1" and nk: "map_of (cache c1) k = None" by auto
  from Cons.prems(3) step have rest: "run_ops ops c1 = Some c'" by simp
  from Cons.prems(2) have "\<forall>op \<in> set ops. \<not> is_Set op" by simp
  from Cons.IH [OF nk this rest] show ?case .
qed

subsection \<open>The byte total\<close>

text \<open>
  C2. The claim: after every operation \<open>byteSize\<close> is the sum of \<open>sizeOf(value)\<close>
  over the live entries. With \<open>maxEntries = 1\<close> and \<open>sizeOf\<close> the stored number,
  \<open>set("a", 5)\<close> followed by \<open>set("a", 7)\<close> leaves one live entry of 7 bytes
  and a \<open>byteSize\<close> of 2: \<open>set\<close> subtracts the 5 bytes of the entry it is about
  to overwrite, and \<open>evictToMakeRoomFor\<close>, which still finds that entry in the map,
  evicts it through \<open>delete_\<close> and subtracts them again.
\<close>

theorem set_overwrite_byteSize_drift:
  "map_option (\<lambda>c. (byteSize c, live_bytes c, map fst (cache c)))
     (run_ops [Set ''a'' 5 0, Set ''a'' 7 1]
        (createLruCache \<lparr> opt_maxEntries = Some (Finite 1), opt_ttlMs = None, opt_maxBytes = None,
                          opt_sizeOf = Some (\<lambda>v. v), opt_onEvict = False \<rparr>))
   = Some (2, 7, [''a''])"
  by code_simp

subsection \<open>The entry limit\<close>

text \<open>
  C8. On a cache created with \<open>maxEntries = N\<close>, \<open>N\<close> a positive integer, the
  map holds at most \<open>N\<close> entries after every call of a sequence that has returned
  (the sequence may also contain the other operations). A \<open>set\<close> can fail to
  return only when the entry that \<open>evictOne\<close> selects has the empty string as
  its key; when no \<open>set\<close> uses the empty key, every call returns.
\<close>

theorem set_respects_maxEntries:
  assumes "opt_maxEntries opts = Some (Finite N)" and "1 \<le> N"
  shows "(\<forall>n c. run_ops (take n ops) (createLruCache opts) = Some c \<longrightarrow> int (length (cache c)) \<le> N)
       \<and> ((\<forall>key v now. Set key v now \<in> set ops \<longrightarrow> key \<noteq> [])
            \<longrightarrow> (\<exists>c. run_ops ops (createLruCache opts) = Some c))"
proof (intro conjI allI impI)
  fix n c
  assume run: "run_ops (take n ops) (createLruCache opts) = Some c"
  have m: "maxEntries (createLruCache opts) = Finite N"
    using assms(1) by (simp add: createLruCache_def)
  have e: "int (length (cache (createLruCache opts))) \<le> N"
    using assms(2) by (simp add: createLruCache_def)
  from run_ops_size [OF run m assms(2) e] show "int (length (cache c)) \<le> N" .
next
  assume keys: "\<forall>key v now. Set key v now \<in> set ops \<longrightarrow> key \<noteq> []"
  have "map_of (cache (createLruCache opts)) [] = None"
    by (simp add: createLruCache_def)
  from run_ops_returns [OF this keys] show "\<exists>c. run_ops ops (createLruCache opts) = Some c" .
qed

theorem set_respects_maxEntries_witness:
  "opt_maxEntries opts_two = Some (Finite 2) \<and> (1::int) \<le> 2
   \<and> map_option (\<lambda>c. map fst (cache c))
        (run_ops [Set ''a'' 1 0, Set ''b'' 2 1, Set ''c'' 3 2] (createLruCache opts_two))
       = Some [''b'', ''c'']
   \<and> (\<exists>c. run_ops [Set ''a'' 1 0, Set ''b'' 2 1, Set ''c'' 3 2] (createLruCache opts_two) = Some c
          \<and> int (length (cache c)) \<le> 2)"
proof -
  let ?ops = "[Set ''a'' 1 0, Set ''b'' 2 1, Set ''c'' (3::int) 2]"
  have h: "opt_maxEntries opts_two = Some (Finite 2)" by (simp add: opts_two_def)
  have h2: "(1::int) \<le> 2" by simp
  have keys: "\<forall>key v now. Set key v now \<in> set ?ops \<longrightarrow> key \<noteq> []" by auto
  have r: "map_option (\<lambda>c. map fst (cache c)) (run_ops ?ops (createLruCache opts_two))
       = Some [''b'', ''c'']"
    by code_simp
  note inst = set_respects_maxEntries [OF h h2, of ?ops]
  from inst keys obtain c where c: "run_ops ?ops (createLruCache opts_two) = Some c" by blast
  then have "run_ops (take 3 ?ops) (createLruCache opts_two) = Some c" by simp
  with inst have "int (length (cache c)) \<le> 2" by blast
  with c have "\<exists>c. run_ops ?ops (createLruCache opts_two) = Some c \<and> int (length (cache c)) \<le> 2"
    by blast
  with h h2 r show ?thesis by (intro conjI)
qed

subsection \<open>Expiry on read\<close>

text \<open>
  C9. When the entry under \<open>key\<close> is older than \<open>ttlMs\<close> at a \<open>get(key)\<close>, the
  call reports absent, the entry is deleted and \<open>onEvict\<close>, when supplied, is
  called with the key and the value; \<open>peek(key)\<close> then reports absent, also after
  any further operations that are not a \<open>set\<close>.
\<close>

theorem get_expired_evicts:
  assumes "map_of (cache c) key = Some entry"
    and "gt_bound (now - createdAt entry) (ttlMs c)"
  shows "fst (get key now c) = None
       \<and> evicted (snd (get key now c))
           = (if onEvict c then evicted c @ [(key, val entry)] else evicted c)
       \<and> map_of (cache (snd (get key now c))) key = None
       \<and> peek key (snd (get key now c)) = None
       \<and> (\<forall>ops c'. (\<forall>op \<in> set ops. \<not> is_Set op)
              \<longrightarrow> run_ops ops (snd (get key now c)) = Some c' \<longrightarrow> peek key c' = None)"
proof -
  have g: "get key now c = (None, snd (delete_entry key c))"
    using assms by (simp add: get_def)
  have absent: "map_of (cache (snd (get key now c))) key = None"
    by (simp add: g delete_entry_cache map_of_map_delete)
  have log: "evicted (snd (get key now c))
           = (if onEvict c then evicted c @ [(key, val entry)] else evicted c)"
    using assms(1) by (simp add: g delete_entry_def fire_onEvict_def Let_def)
  have later: "\<forall>ops c'. (\<forall>op \<in> set ops. \<not> is_Set op)
              \<longrightarrow> run_ops ops (snd (get key now c)) = Some c' \<longrightarrow> peek key c' = None"
    using run_ops_absent [OF absent] by (simp add: peek_def)
  from g absent log later show ?thesis by (simp add: peek_def)
qed

theorem get_expired_evicts_witness:
  "set_entry ''a'' 5 0 (createLruCache opts_ttl) = Some cache_ttl
   \<and> map_of (cache cache_ttl) ''a'' = Some \<lparr>val = 5, lastAccess = 0, createdAt = 0\<rparr>
   \<and> gt_bound (11 - 0) (ttlMs cache_ttl)
   \<and> fst (get ''a'' 11 cache_ttl) = None
   \<and> evicted (snd (get ''a'' 11 cache_ttl)) = [(''a'', 5)]
   \<and> peek ''a'' (snd (get ''a'' 11 cache_ttl)) = None"
proof -
  have reach: "set_entry ''a'' 5 0 (createLruCache opts_ttl) = Some cache_ttl"
    by (simp add: cache_ttl_def opts_ttl_def set_entry_def createLruCache_def
          evictToMakeRoomFor_def evictExpired_def evictLoop.simps)
  have h1: "map_of (cache cache_ttl) ''a'' = Some \<lparr>val = 5, lastAccess = 0, createdAt = 0\<rparr>"
    by (simp add: cache_ttl_def)
  have h2: "gt_bound (11 - createdAt \<lparr>val = 5::int, lastAccess = 0, createdAt = 0\<rparr>) (ttlMs cache_ttl)"
    by (simp add: cache_ttl_def)
  from get_expired_evicts [OF h1 h2] reach h1 h2 show ?thesis by (simp add: cache_ttl_def)
qed

section \<open>Properties of the queue\<close>

lemmas queue_defs =
  push_def dedup_lookup_def store_and_append_def shift_resolve_def enqueueNode_def
  dequeueNode_def cleanupCache_def inc_dropped_def pushWhenAvailable_def checkAndPush_def
  next_item_def clear_queue_def clearCache_def retry_def

subsection \<open>Handing an item to a waiting consumer\<close>

lemma store_and_append_nodes:
  "nodes (snd (store_and_append item now q)) = nodes q @ [item]"
  by (simp add: queue_defs Let_def split: option.splits list.splits)

lemma store_and_append_qsize:
  "qsize (snd (store_and_append item now q)) = qsize q + 1"
  by (simp add: queue_defs Let_def split: option.splits list.splits)

lemma store_and_append_delivered:
  "delivered (snd (store_and_append item now q))
     = (case resolvers q of [] \<Rightarrow> delivered q | r # rs \<Rightarrow> delivered q @ [(r, item)])"
  by (simp add: queue_defs Let_def split: option.splits list.splits)

text \<open>
  C1. The claim: when a consumer is suspended in \<open>next()\<close> as \<open>push(item)\<close> reaches
  its append step, the item is handed to the oldest waiting consumer and is not
  left in the buffer, whose length does not change. The append step of the code
  (\<open>store_and_append\<close>, lines 103 to 108) first appends the item in every state
  and then resolves the oldest consumer with it: the buffer grows by the item
  also when the item is handed over. On a new queue with one suspended
  \<open>next()\<close>, a push leaves the item delivered to that consumer and buffered,
  with length 1.
\<close>

theorem push_buffers_item_handed_to_consumer:
  "nodes (snd (store_and_append item now q)) = nodes q @ [item]
   \<and> qsize (snd (store_and_append item now q)) = qsize q + 1
   \<and> delivered (snd (store_and_append item now q))
       = (case resolvers q of [] \<Rightarrow> delivered q | r # rs \<Rightarrow> delivered q @ [(r, item)])
   \<and> resolvers (snd (next_item truthy cid (new_AsyncQueue stringify None))) = [cid]
   \<and> fst (push item now (snd (next_item truthy cid (new_AsyncQueue stringify None)))) = Returned True
   \<and> delivered (snd (push item now (snd (next_item truthy cid (new_AsyncQueue stringify None)))))
       = [(cid, item)]
   \<and> nodes (snd (push item now (snd (next_item truthy cid (new_AsyncQueue stringify None)))))
       = [item]
   \<and> qsize (snd (push item now (snd (next_item truthy cid (new_AsyncQueue stringify None))))) = 1"
  by (simp add: store_and_append_nodes store_and_append_qsize store_and_append_delivered)
     (simp add: queue_defs new_AsyncQueue_def)

subsection \<open>When deduplication is enabled\<close>

lemma same_dedup_refl: "same_dedup q q"
  by (simp add: same_dedup_def)

lemma same_dedup_trans: "same_dedup q q1 \<Longrightarrow> same_dedup q1 q2 \<Longrightarrow> same_dedup q q2"
  by (simp add: same_dedup_def)

lemma same_dedup_enqueueNode: "same_dedup q (enqueueNode v q)"
  by (simp add: same_dedup_def enqueueNode_def)

lemma same_dedup_dequeueNode: "same_dedup q (snd (dequeueNode q))"
  by (simp add: same_dedup_def dequeueNode_def split: list.splits)

lemma same_dedup_shift_resolve: "same_dedup q (snd (shift_resolve v q))"
  by (simp add: same_dedup_def shift_resolve_def split: list.splits)

lemma same_dedup_inc_dropped: "same_dedup q (inc_dropped q)"
  by (simp add: same_dedup_def inc_dropped_def)

lemma same_dedup_cleanupCache: "same_dedup q (cleanupCache now q)"
  by (simp add: same_dedup_def cleanupCache_def split: option.splits)

lemma same_dedup_store_and_append: "same_dedup q (snd (store_and_append item now q))"
  by (simp add: same_dedup_def store_and_append_def Let_def cleanupCache_def enqueueNode_def
        shift_resolve_def split: option.splits list.splits)

lemma same_dedup_checkAndPush: "same_dedup q (snd (checkAndPush item q))"
  by (simp add: same_dedup_def checkAndPush_def enqueueNode_def shift_resolve_def
        split: list.splits)

lemma same_dedup_pushWhenAvailable: "same_dedup q (snd (pushWhenAvailable item q))"
proof (cases "checkAndPush item q")
  case (Pair b q')
  with same_dedup_checkAndPush [of q item] show ?thesis
    by (cases b) (simp_all add: pushWhenAvailable_def same_dedup_def)
qed

lemma same_dedup_retry: "same_dedup q (retry i q)"
proof (cases "i < length (blocked q)")
  case False
  then show ?thesis by (simp add: retry_def same_dedup_refl)
next
  case True
  obtain b q' where c: "checkAndPush (blocked q ! i) q = (b, q')" by (cases "checkAndPush (blocked q ! i) q")
  with same_dedup_checkAndPush [of q "blocked q ! i"] True show ?thesis
    by (cases b) (simp_all add: retry_def same_dedup_def)
qed

lemma same_dedup_next_item: "same_dedup q (snd (next_item truthy cid q))"
  by (simp add: same_dedup_def next_item_def dequeueNode_def split: list.splits)

lemma same_dedup_clear_queue: "same_dedup q (clear_queue q)"
  by (simp add: same_dedup_def clear_queue_def)

lemma same_dedup_clearCache: "same_dedup q (clearCache q)"
  by (simp add: same_dedup_def clearCache_def split: option.splits)

text \<open>After the lookup block, the rest of \<open>push\<close> leaves the counters alone.\<close>

lemma push_after_lookup:
  "same_dedup (snd (dedup_lookup item now q)) (snd (push item now q))"
proof (cases "dedup_lookup item now q")
  case (Pair hit q1)
  show ?thesis
  proof (cases hit)
    case (Some v)
    obtain b q2 where s: "shift_resolve v q1 = (b, q2)" by (cases "shift_resolve v q1")
    with same_dedup_shift_resolve [of q1 v] have q2: "same_dedup q1 q2" by simp
    from Pair Some s have "snd (push item now q) = (if b then q2 else enqueueNode v q2)"
      by (simp add: push_def)
    with q2 same_dedup_trans [OF q2 same_dedup_enqueueNode [of q2 v]] Pair show ?thesis by simp
  next
    case None
    have a: "same_dedup q1 (inc_dropped q1)" by (rule same_dedup_inc_dropped)
    have b: "same_dedup q1 (snd (store_and_append item now (inc_dropped (snd (dequeueNode q1)))))"
      by (rule same_dedup_trans [OF same_dedup_dequeueNode
            same_dedup_trans [OF same_dedup_inc_dropped same_dedup_store_and_append]])
    have c: "same_dedup q1 (snd (pushWhenAvailable item q1))" by (rule same_dedup_pushWhenAvailable)
    have d: "same_dedup q1 (snd (store_and_append item now q1))" by (rule same_dedup_store_and_append)
    from Pair None a b c d show ?thesis
      by (simp add: push_def split: strategy.splits)
  qed
qed

lemma dedup_lookup_disabled:
  "\<not> dedup_enabled q \<Longrightarrow> dedup_lookup item now q = (None, q)"
  by (auto simp: dedup_enabled_def dedup_lookup_def split: option.splits)

lemma dedup_lookup_enabled:
  "dedup_enabled q \<Longrightarrow>
     cacheKeyFn (snd (dedup_lookup item now q)) = cacheKeyFn q
     \<and> qcache (snd (dedup_lookup item now q)) = qcache q
     \<and> cacheHits (metrics (snd (dedup_lookup item now q)))
         + cacheMisses (metrics (snd (dedup_lookup item now q)))
       = cacheHits (metrics q) + cacheMisses (metrics q) + 1"
  by (auto simp: dedup_enabled_def dedup_lookup_def split: option.splits)

lemma apply_queue_op_same_dedup:
  "\<not> is_Push op \<Longrightarrow> same_dedup q (apply_queue_op truthy op q)"
  by (cases op)
     (simp_all add: same_dedup_next_item same_dedup_clear_queue same_dedup_clearCache
        same_dedup_retry)

lemma apply_queue_op_disabled:
  assumes "\<not> dedup_enabled q"
  shows "same_dedup q (apply_queue_op truthy op q)"
proof (cases "is_Push op")
  case False
  then show ?thesis by (rule apply_queue_op_same_dedup)
next
  case True
  then obtain item now where op: "op = Push item now" by (cases op) auto
  from push_after_lookup [of item now q] dedup_lookup_disabled [OF assms, of item now] op
  show ?thesis by simp
qed

lemma apply_queue_op_enabled:
  assumes "dedup_enabled q"
  shows "dedup_enabled (apply_queue_op truthy op q)
       \<and> cacheHits (metrics (apply_queue_op truthy op q))
           + cacheMisses (metrics (apply_queue_op truthy op q))
         = cacheHits (metrics q) + cacheMisses (metrics q) + (if is_Push op then 1 else 0)"
proof (cases "is_Push op")
  case False
  from apply_queue_op_same_dedup [OF False, of q truthy] assms False show ?thesis
    by (simp add: same_dedup_def dedup_enabled_def)
next
  case True
  then obtain item now where op: "op = Push item now" by (cases op) auto
  from push_after_lookup [of item now q] dedup_lookup_enabled [OF assms, of item now] assms op
  show ?thesis by (simp add: same_dedup_def dedup_enabled_def)
qed

lemma run_queue_disabled:
  "\<not> dedup_enabled q \<Longrightarrow> same_dedup q (run_queue truthy ops q)"
proof (induction ops arbitrary: q)
  case Nil
  show ?case by (simp add: run_queue_def same_dedup_refl)
next
  case (Cons op ops)
  have step: "same_dedup q (apply_queue_op truthy op q)"
    by (rule apply_queue_op_disabled [OF Cons.prems])
  with Cons.prems have "\<not> dedup_enabled (apply_queue_op truthy op q)"
    by (simp add: same_dedup_def dedup_enabled_def)
  from Cons.IH [OF this] step show ?case
    by (simp add: run_queue_def same_dedup_def)
qed

lemma run_queue_enabled:
  "dedup_enabled q \<Longrightarrow>
     dedup_enabled (run_queue truthy ops q)
     \<and> cacheHits (metrics (run_queue truthy ops q)) + cacheMisses (metrics (run_queue truthy ops q))
       = cacheHits (metrics q) + cacheMisses (metrics q) + int (length (filter is_Push ops))"
proof (induction ops arbitrary: q)
  case Nil
  then show ?case by (simp add: run_queue_def)
next
  case (Cons op ops)
  from apply_queue_op_enabled [OF Cons.prems, of truthy op]
  have en: "dedup_enabled (apply_queue_op truthy op q)"
    and cnt: "cacheHits (metrics (apply_queue_op truthy op q))
           + cacheMisses (metrics (apply_queue_op truthy op q))
         = cacheHits (metrics q) + cacheMisses (metrics q) + (if is_Push op then 1 else 0)"
    by auto
  from Cons.IH [OF en] cnt show ?case by (simp add: run_queue_def)
qed

lemma new_AsyncQueue_enabled:
  "dedup_enabled (new_AsyncQueue stringify options)
     = (\<exists>opt. options = Some opt \<and> opt_enableCache opt = Some True)"
  by (cases options) (simp_all add: new_AsyncQueue_def dedup_enabled_def Let_def)

lemma new_AsyncQueue_counters:
  "cacheHits (metrics (new_AsyncQueue stringify options)) = 0
   \<and> cacheMisses (metrics (new_AsyncQueue stringify options)) = 0"
  by (cases options) (simp_all add: new_AsyncQueue_def Let_def)

lemma new_AsyncQueue_no_cache:
  "\<not> dedup_enabled (new_AsyncQueue stringify options)
     \<Longrightarrow> qcache (new_AsyncQueue stringify options) = None"
  by (cases options) (simp_all add: new_AsyncQueue_def dedup_enabled_def Let_def split: if_splits)

text \<open>
  C3, as stated: deduplication is enabled exactly when a \<open>cacheKeyFn\<close> is
  supplied. It fails in both directions: a queue constructed with a
  \<open>cacheKeyFn\<close> and no \<open>enableCache\<close> has no cache, and two equal pushes count no
  hit and no miss; a queue constructed with \<open>enableCache\<close> and no \<open>cacheKeyFn\<close>
  deduplicates.
\<close>

theorem keyFn_without_enableCache_no_dedup:
  "opt_cacheKeyFn opts_keyfn_only = Some const_key
   \<and> \<not> dedup_enabled (new_AsyncQueue json_key (Some opts_keyfn_only))
   \<and> nodes (run_queue nonzero [Push 1 0, Push 1 1] (new_AsyncQueue json_key (Some opts_keyfn_only)))
       = [1, 1]
   \<and> cacheHits (metrics (run_queue nonzero [Push 1 0, Push 1 1]
         (new_AsyncQueue json_key (Some opts_keyfn_only)))) = 0
   \<and> cacheMisses (metrics (run_queue nonzero [Push 1 0, Push 1 1]
         (new_AsyncQueue json_key (Some opts_keyfn_only)))) = 0
   \<and> opt_cacheKeyFn opts_enable_only = None
   \<and> dedup_enabled (new_AsyncQueue json_key (Some opts_enable_only))
   \<and> nodes (run_queue nonzero [Push 1 0, Push 1 1] (new_AsyncQueue json_key (Some opts_enable_only)))
       = [1, 1]
   \<and> cacheHits (metrics (run_queue nonzero [Push 1 0, Push 1 1]
         (new_AsyncQueue json_key (Some opts_enable_only)))) = 1
   \<and> cacheMisses (metrics (run_queue nonzero [Push 1 0, Push 1 1]
         (new_AsyncQueue json_key (Some opts_enable_only)))) = 1"
  by (simp add: opts_keyfn_only_def opts_enable_only_def new_AsyncQueue_def dedup_enabled_def
        run_queue_def queue_defs json_key_def DEFAULT_CACHE_TTL_def Let_def)

subsection \<open>The lookup and the store of one push\<close>

lemma cacheTTL_enqueueNode: "cacheTTL (enqueueNode v q) = cacheTTL q"
  by (simp add: enqueueNode_def)

lemma cacheTTL_dequeueNode: "cacheTTL (snd (dequeueNode q)) = cacheTTL q"
  by (simp add: dequeueNode_def split: list.splits)

lemma cacheTTL_shift_resolve: "cacheTTL (snd (shift_resolve v q)) = cacheTTL q"
  by (simp add: shift_resolve_def split: list.splits)

lemma cacheTTL_inc_dropped: "cacheTTL (inc_dropped q) = cacheTTL q"
  by (simp add: inc_dropped_def)

lemma cacheTTL_store_and_append: "cacheTTL (snd (store_and_append item now q)) = cacheTTL q"
  by (simp add: store_and_append_def Let_def cleanupCache_def enqueueNode_def
        shift_resolve_def split: option.splits list.splits)

lemma cacheTTL_checkAndPush: "cacheTTL (snd (checkAndPush item q)) = cacheTTL q"
  by (simp add: checkAndPush_def enqueueNode_def shift_resolve_def split: list.splits)

lemma cacheTTL_pushWhenAvailable: "cacheTTL (snd (pushWhenAvailable item q)) = cacheTTL q"
proof (cases "checkAndPush item q")
  case (Pair b q')
  with cacheTTL_checkAndPush [of item q] show ?thesis
    by (cases b) (simp_all add: pushWhenAvailable_def)
qed

lemma cacheTTL_dedup_lookup: "cacheTTL (snd (dedup_lookup item now q)) = cacheTTL q"
  by (simp add: dedup_lookup_def split: option.splits)

lemma cacheTTL_push: "cacheTTL (snd (push item now q)) = cacheTTL q"
proof (cases "dedup_lookup item now q")
  case (Pair hit q1)
  with cacheTTL_dedup_lookup [of item now q] have q1: "cacheTTL q1 = cacheTTL q" by simp
  show ?thesis
  proof (cases hit)
    case (Some v)
    obtain b q2 where s: "shift_resolve v q1 = (b, q2)" by (cases "shift_resolve v q1")
    with cacheTTL_shift_resolve [of v q1] have "cacheTTL q2 = cacheTTL q1" by simp
    with Pair Some s q1 show ?thesis
      by (cases b) (simp_all add: push_def cacheTTL_enqueueNode)
  next
    case None
    with Pair q1 show ?thesis
      by (simp add: push_def cacheTTL_inc_dropped cacheTTL_store_and_append
            cacheTTL_dequeueNode cacheTTL_pushWhenAvailable split: strategy.splits)
  qed
qed

lemma cacheTTL_retry: "cacheTTL (retry i q) = cacheTTL q"
proof (cases "i < length (blocked q)")
  case False
  then show ?thesis by (simp add: retry_def)
next
  case True
  obtain b q' where c: "checkAndPush (blocked q ! i) q = (b, q')"
    by (cases "checkAndPush (blocked q ! i) q")
  with cacheTTL_checkAndPush [of "blocked q ! i" q] True show ?thesis
    by (cases b) (simp_all add: retry_def)
qed

lemma cacheTTL_apply_queue_op: "cacheTTL (apply_queue_op truthy op q) = cacheTTL q"
  by (cases op)
     (simp_all add: cacheTTL_push cacheTTL_retry next_item_def dequeueNode_def clear_queue_def
        clearCache_def split: list.splits option.splits)

lemma cacheTTL_run_queue: "cacheTTL (run_queue truthy ops q) = cacheTTL q"
proof (induction ops arbitrary: q)
  case Nil
  show ?case by (simp add: run_queue_def)
next
  case (Cons op ops)
  from Cons.IH [of "apply_queue_op truthy op q"] show ?case
    by (simp add: run_queue_def cacheTTL_apply_queue_op)
qed

text \<open>A push on a queue with a cache and a key function: the hit and the miss.\<close>

lemma push_hit:
  assumes "qcache q = Some m" and "cacheKeyFn q = Some keyFn"
    and "map_of m (keyFn item) = Some e" and "now < expires e"
  shows "fst (push item now q) = Returned True"
    and "cacheHits (metrics (snd (push item now q))) = cacheHits (metrics q) + 1"
    and "cacheMisses (metrics (snd (push item now q))) = cacheMisses (metrics q)"
    and "qcache (snd (push item now q)) = Some m"
    and "nodes (snd (push item now q)) = (if resolvers q = [] then nodes q @ [cached e] else nodes q)"
    and "delivered (snd (push item now q))
           = (case resolvers q of [] \<Rightarrow> delivered q | r # rs \<Rightarrow> delivered q @ [(r, cached e)])"
proof -
  have hit: "dedup_lookup item now q
      = (Some (cached e), q\<lparr> metrics := (metrics q)\<lparr> cacheHits := cacheHits (metrics q) + 1 \<rparr> \<rparr>)"
    using assms by (simp add: dedup_lookup_def)
  show "fst (push item now q) = Returned True"
    by (simp add: push_def hit shift_resolve_def split: list.splits)
  show "cacheHits (metrics (snd (push item now q))) = cacheHits (metrics q) + 1"
    by (simp add: push_def hit shift_resolve_def enqueueNode_def split: list.splits)
  show "cacheMisses (metrics (snd (push item now q))) = cacheMisses (metrics q)"
    by (simp add: push_def hit shift_resolve_def enqueueNode_def split: list.splits)
  show "qcache (snd (push item now q)) = Some m"
    using assms(1) by (simp add: push_def hit shift_resolve_def enqueueNode_def split: list.splits)
  show "nodes (snd (push item now q)) = (if resolvers q = [] then nodes q @ [cached e] else nodes q)"
    by (simp add: push_def hit shift_resolve_def enqueueNode_def split: list.splits)
  show "delivered (snd (push item now q))
           = (case resolvers q of [] \<Rightarrow> delivered q | r # rs \<Rightarrow> delivered q @ [(r, cached e)])"
    by (simp add: push_def hit shift_resolve_def enqueueNode_def split: list.splits)
qed

lemma store_and_append_qcache:
  assumes "qcache q = Some m" and "cacheKeyFn q = Some keyFn"
  shows "fst (store_and_append item now q) = Returned True"
    and "qcache (snd (store_and_append item now q))
       = Some (filter (\<lambda>(key, entry). \<not> expires entry \<le> now)
                 (map_set (keyFn item)
                    \<lparr> cached = item,
                      expires = now + (case cacheTTL q of None \<Rightarrow> DEFAULT_CACHE_TTL | Some t \<Rightarrow> t) \<rparr>
                    m))"
  using assms
  by (simp_all add: store_and_append_def Let_def cleanupCache_def enqueueNode_def
        shift_resolve_def split: list.splits)

lemma pushWhenAvailable_result:
  "fst (pushWhenAvailable item q) \<noteq> Returned True"
  "qcache (snd (pushWhenAvailable item q)) = qcache q"
  by (simp_all add: pushWhenAvailable_def checkAndPush_def enqueueNode_def shift_resolve_def
        split: list.splits)

lemma push_miss:
  assumes c: "qcache q = Some m" and k: "cacheKeyFn q = Some keyFn"
    and miss: "\<not> (\<exists>e. map_of m (keyFn item) = Some e \<and> now < expires e)"
  shows "cacheHits (metrics (snd (push item now q))) = cacheHits (metrics q)"
    and "cacheMisses (metrics (snd (push item now q))) = cacheMisses (metrics q) + 1"
    and "qcache (snd (push item now q))
       = (if fst (push item now q) = Returned True
          then Some (filter (\<lambda>(key, entry). \<not> expires entry \<le> now)
                 (map_set (keyFn item)
                    \<lparr> cached = item,
                      expires = now + (case cacheTTL q of None \<Rightarrow> DEFAULT_CACHE_TTL | Some t \<Rightarrow> t) \<rparr>
                    m))
          else Some m)"
proof -
  define q1 where "q1 = q\<lparr> metrics := (metrics q)\<lparr> cacheMisses := cacheMisses (metrics q) + 1 \<rparr> \<rparr>"
  have look: "dedup_lookup item now q = (None, q1)"
    using c k miss by (auto simp: dedup_lookup_def q1_def split: option.splits)
  from push_after_lookup [of item now q] look
  have same: "same_dedup q1 (snd (push item now q))" by simp
  then show "cacheHits (metrics (snd (push item now q))) = cacheHits (metrics q)"
    by (simp add: same_dedup_def q1_def)
  from same show "cacheMisses (metrics (snd (push item now q))) = cacheMisses (metrics q) + 1"
    by (simp add: same_dedup_def q1_def)
  have c1: "qcache q1 = Some m" "cacheKeyFn q1 = Some keyFn" "cacheTTL q1 = cacheTTL q"
    using c k by (simp_all add: q1_def)
  define q2 where "q2 = inc_dropped (snd (dequeueNode q1))"
  have c2: "qcache q2 = Some m" "cacheKeyFn q2 = Some keyFn" "cacheTTL q2 = cacheTTL q"
    using c1 by (simp_all add: q2_def inc_dropped_def dequeueNode_def split: list.splits)
  note sa1 = store_and_append_qcache [OF c1(1,2), of item now]
  note sa2 = store_and_append_qcache [OF c2(1,2), of item now]
  show "qcache (snd (push item now q))
       = (if fst (push item now q) = Returned True
          then Some (filter (\<lambda>(key, entry). \<not> expires entry \<le> now)
                 (map_set (keyFn item)
                    \<lparr> cached = item,
                      expires = now + (case cacheTTL q of None \<Rightarrow> DEFAULT_CACHE_TTL | Some t \<Rightarrow> t) \<rparr>
                    m))
          else Some m)"
  proof (cases "ge_bound (qsize q1) (maxSize q1)")
    case False
    then have "push item now q = store_and_append item now q1" by (simp add: push_def look)
    with sa1 c1(3) show ?thesis by simp
  next
    case True
    show ?thesis
    proof (cases "dropStrategy q1")
      case Oldest
      with True have "push item now q = store_and_append item now q2"
        by (simp add: push_def look q2_def)
      with sa2 c2(3) show ?thesis by simp
    next
      case Newest
      with True have "push item now q = (Returned False, inc_dropped q1)"
        by (simp add: push_def look)
      with c1(1) show ?thesis by (simp add: inc_dropped_def)
    next
      case Block
      with True have "push item now q = pushWhenAvailable item q1" by (simp add: push_def look)
      with pushWhenAvailable_result [of item q1] c1(1) show ?thesis by simp
    qed
  qed
qed

lemma cacheKeyFn_dedup_lookup: "cacheKeyFn (snd (dedup_lookup item now q)) = cacheKeyFn q"
  by (simp add: dedup_lookup_def split: option.splits)

lemma cacheKeyFn_apply_queue_op: "cacheKeyFn (apply_queue_op truthy op q) = cacheKeyFn q"
proof (cases "is_Push op")
  case False
  from apply_queue_op_same_dedup [OF False, of q truthy] show ?thesis
    by (simp add: same_dedup_def)
next
  case True
  then obtain item now where op: "op = Push item now" by (cases op) auto
  from push_after_lookup [of item now q] cacheKeyFn_dedup_lookup [of item now q] op
  show ?thesis by (simp add: same_dedup_def)
qed

lemma cacheKeyFn_run_queue: "cacheKeyFn (run_queue truthy ops q) = cacheKeyFn q"
proof (induction ops arbitrary: q)
  case Nil
  show ?case by (simp add: run_queue_def)
next
  case (Cons op ops)
  from Cons.IH [of "apply_queue_op truthy op q"] show ?case
    by (simp add: run_queue_def cacheKeyFn_apply_queue_op)
qed

text \<open>
  C3, amended: deduplication is enabled exactly when \<open>enableCache\<close> is true in
  the options; the key function is then the supplied \<open>cacheKeyFn\<close>, or
  \<open>JSON.stringify\<close> when none is supplied. On a queue constructed with
  \<open>enableCache\<close>, in every state that calls and timers lead to, the cache, the
  key function and the time to live are there, and every push performs the
  lookup and the store: when the map holds an entry under the key of the item
  that has not expired, the push counts one hit and no miss, returns \<open>true\<close>,
  hands on the value of that entry (to the oldest waiting consumer, or to the
  buffer) and leaves the map as it is; otherwise it counts one miss and no hit,
  and when it is accepted (returns \<open>true\<close>) it stores the item under its key
  with the expiry \<open>now + cacheTTL\<close> and purges the expired entries, while a push
  that is refused or suspended leaves the map as it is. On a queue constructed
  without \<open>enableCache\<close> no operation creates a cache, and \<open>cacheHits\<close> and
  \<open>cacheMisses\<close> stay 0.
\<close>

theorem dedup_gated_by_enableCache:
  "dedup_enabled (new_AsyncQueue stringify options)
     = (\<exists>opt. options = Some opt \<and> opt_enableCache opt = Some True)
   \<and> (\<forall>opt. options = Some opt \<and> opt_enableCache opt = Some True \<longrightarrow>
         cacheKeyFn (new_AsyncQueue stringify options)
           = Some (case opt_cacheKeyFn opt of None \<Rightarrow> stringify | Some f \<Rightarrow> f))
   \<and> (dedup_enabled (new_AsyncQueue stringify options) \<longrightarrow>
         cacheHits (metrics (run_queue truthy ops (new_AsyncQueue stringify options)))
           + cacheMisses (metrics (run_queue truthy ops (new_AsyncQueue stringify options)))
         = int (length (filter is_Push ops)))
   \<and> (\<not> dedup_enabled (new_AsyncQueue stringify options) \<longrightarrow>
         qcache (run_queue truthy ops (new_AsyncQueue stringify options)) = None
         \<and> cacheHits (metrics (run_queue truthy ops (new_AsyncQueue stringify options))) = 0
         \<and> cacheMisses (metrics (run_queue truthy ops (new_AsyncQueue stringify options))) = 0)
   \<and> (\<forall>opt. options = Some opt \<and> opt_enableCache opt = Some True \<longrightarrow>
         (let q = run_queue truthy ops (new_AsyncQueue stringify options);
              keyFn = (case opt_cacheKeyFn opt of None \<Rightarrow> stringify | Some f \<Rightarrow> f);
              ttl = (case opt_cacheTTL opt of None \<Rightarrow> DEFAULT_CACHE_TTL | Some t \<Rightarrow> t)
          in (\<exists>m. qcache q = Some m) \<and> cacheKeyFn q = Some keyFn \<and> cacheTTL q = Some ttl
             \<and> (\<forall>m e. qcache q = Some m \<and> map_of m (keyFn item) = Some e \<and> now < expires e \<longrightarrow>
                   fst (push item now q) = Returned True
                   \<and> cacheHits (metrics (snd (push item now q))) = cacheHits (metrics q) + 1
                   \<and> cacheMisses (metrics (snd (push item now q))) = cacheMisses (metrics q)
                   \<and> qcache (snd (push item now q)) = Some m
                   \<and> nodes (snd (push item now q))
                       = (if resolvers q = [] then nodes q @ [cached e] else nodes q)
                   \<and> delivered (snd (push item now q))
                       = (case resolvers q of [] \<Rightarrow> delivered q
                          | r # rs \<Rightarrow> delivered q @ [(r, cached e)]))
             \<and> (\<forall>m. qcache q = Some m
                     \<and> \<not> (\<exists>e. map_of m (keyFn item) = Some e \<and> now < expires e) \<longrightarrow>
                   cacheHits (metrics (snd (push item now q))) = cacheHits (metrics q)
                   \<and> cacheMisses (metrics (snd (push item now q))) = cacheMisses (metrics q) + 1
                   \<and> qcache (snd (push item now q))
                       = (if fst (push item now q) = Returned True
                          then Some (filter (\<lambda>(key, entry). \<not> expires entry \<le> now)
                                 (map_set (keyFn item)
                                    \<lparr> cached = item, expires = now + ttl \<rparr> m))
                          else Some m))))"
proof (intro conjI allI impI)
  show "dedup_enabled (new_AsyncQueue stringify options)
     = (\<exists>opt. options = Some opt \<and> opt_enableCache opt = Some True)"
    by (rule new_AsyncQueue_enabled)
next
  fix opt
  assume "options = Some opt \<and> opt_enableCache opt = Some True"
  then show "cacheKeyFn (new_AsyncQueue stringify options)
           = Some (case opt_cacheKeyFn opt of None \<Rightarrow> stringify | Some f \<Rightarrow> f)"
    by (simp add: new_AsyncQueue_def Let_def)
next
  assume "dedup_enabled (new_AsyncQueue stringify options)"
  from run_queue_enabled [OF this, of truthy ops] new_AsyncQueue_counters [of stringify options]
  show "cacheHits (metrics (run_queue truthy ops (new_AsyncQueue stringify options)))
           + cacheMisses (metrics (run_queue truthy ops (new_AsyncQueue stringify options)))
         = int (length (filter is_Push ops))"
    by simp
next
  assume off: "\<not> dedup_enabled (new_AsyncQueue stringify options)"
  note same = run_queue_disabled [OF off, of truthy ops]
  from same new_AsyncQueue_no_cache [OF off]
  show "qcache (run_queue truthy ops (new_AsyncQueue stringify options)) = None"
    by (simp add: same_dedup_def)
  from same new_AsyncQueue_counters [of stringify options]
  show "cacheHits (metrics (run_queue truthy ops (new_AsyncQueue stringify options))) = 0"
    by (simp add: same_dedup_def)
  from same new_AsyncQueue_counters [of stringify options]
  show "cacheMisses (metrics (run_queue truthy ops (new_AsyncQueue stringify options))) = 0"
    by (simp add: same_dedup_def)
next
  fix opt
  assume on: "options = Some opt \<and> opt_enableCache opt = Some True"
  define q where "q = run_queue truthy ops (new_AsyncQueue stringify options)"
  define keyFn where "keyFn = (case opt_cacheKeyFn opt of None \<Rightarrow> stringify | Some f \<Rightarrow> f)"
  define ttl where "ttl = (case opt_cacheTTL opt of None \<Rightarrow> DEFAULT_CACHE_TTL | Some t \<Rightarrow> t)"
  from on have en0: "dedup_enabled (new_AsyncQueue stringify options)"
    by (simp add: new_AsyncQueue_enabled)
  from run_queue_enabled [OF en0, of truthy ops] have "dedup_enabled q" by (simp add: q_def)
  then have c: "\<exists>m. qcache q = Some m" by (simp add: dedup_enabled_def)
  have k: "cacheKeyFn q = Some keyFn"
    using on by (simp add: q_def cacheKeyFn_run_queue keyFn_def new_AsyncQueue_def Let_def)
  have t: "cacheTTL q = Some ttl"
    using on by (simp add: q_def cacheTTL_run_queue ttl_def new_AsyncQueue_def Let_def)
  have hit: "\<forall>m e. qcache q = Some m \<and> map_of m (keyFn item) = Some e \<and> now < expires e \<longrightarrow>
                   fst (push item now q) = Returned True
                   \<and> cacheHits (metrics (snd (push item now q))) = cacheHits (metrics q) + 1
                   \<and> cacheMisses (metrics (snd (push item now q))) = cacheMisses (metrics q)
                   \<and> qcache (snd (push item now q)) = Some m
                   \<and> nodes (snd (push item now q))
                       = (if resolvers q = [] then nodes q @ [cached e] else nodes q)
                   \<and> delivered (snd (push item now q))
                       = (case resolvers q of [] \<Rightarrow> delivered q
                          | r # rs \<Rightarrow> delivered q @ [(r, cached e)])"
  proof (intro allI impI)
    fix m e
    assume h: "qcache q = Some m \<and> map_of m (keyFn item) = Some e \<and> now < expires e"
    then have h1: "qcache q = Some m" and h2: "map_of m (keyFn item) = Some e"
      and h3: "now < expires e" by auto
    from push_hit [OF h1 k h2 h3]
    show "fst (push item now q) = Returned True
                   \<and> cacheHits (metrics (snd (push item now q))) = cacheHits (metrics q) + 1
                   \<and> cacheMisses (metrics (snd (push item now q))) = cacheMisses (metrics q)
                   \<and> qcache (snd (push item now q)) = Some m
                   \<and> nodes (snd (push item now q))
                       = (if resolvers q = [] then nodes q @ [cached e] else nodes q)
                   \<and> delivered (snd (push item now q))
                       = (case resolvers q of [] \<Rightarrow> delivered q
                          | r # rs \<Rightarrow> delivered q @ [(r, cached e)])"
      by (intro conjI)
  qed
  have miss: "\<forall>m. qcache q = Some m
                     \<and> \<not> (\<exists>e. map_of m (keyFn item) = Some e \<and> now < expires e) \<longrightarrow>
                   cacheHits (metrics (snd (push item now q))) = cacheHits (metrics q)
                   \<and> cacheMisses (metrics (snd (push item now q))) = cacheMisses (metrics q) + 1
                   \<and> qcache (snd (push item now q))
                       = (if fst (push item now q) = Returned True
                          then Some (filter (\<lambda>(key, entry). \<not> expires entry \<le> now)
                                 (map_set (keyFn item)
                                    \<lparr> cached = item, expires = now + ttl \<rparr> m))
                          else Some m)"
  proof (intro allI impI)
    fix m
    assume h: "qcache q = Some m
                     \<and> \<not> (\<exists>e. map_of m (keyFn item) = Some e \<and> now < expires e)"
    then have h1: "qcache q = Some m"
      and h2: "\<not> (\<exists>e. map_of m (keyFn item) = Some e \<and> now < expires e)" by auto
    from push_miss [OF h1 k h2] t
    show "cacheHits (metrics (snd (push item now q))) = cacheHits (metrics q)
                   \<and> cacheMisses (metrics (snd (push item now q))) = cacheMisses (metrics q) + 1
                   \<and> qcache (snd (push item now q))
                       = (if fst (push item now q) = Returned True
                          then Some (filter (\<lambda>(key, entry). \<not> expires entry \<le> now)
                                 (map_set (keyFn item)
                                    \<lparr> cached = item, expires = now + ttl \<rparr> m))
                          else Some m)"
      by simp
  qed
  from c k t hit miss
  show "let q = run_queue truthy ops (new_AsyncQueue stringify options);
              keyFn = (case opt_cacheKeyFn opt of None \<Rightarrow> stringify | Some f \<Rightarrow> f);
              ttl = (case opt_cacheTTL opt of None \<Rightarrow> DEFAULT_CACHE_TTL | Some t \<Rightarrow> t)
          in (\<exists>m. qcache q = Some m) \<and> cacheKeyFn q = Some keyFn \<and> cacheTTL q = Some ttl
             \<and> (\<forall>m e. qcache q = Some m \<and> map_of m (keyFn item) = Some e \<and> now < expires e \<longrightarrow>
                   fst (push item now q) = Returned True
                   \<and> cacheHits (metrics (snd (push item now q))) = cacheHits (metrics q) + 1
                   \<and> cacheMisses (metrics (snd (push item now q))) = cacheMisses (metrics q)
                   \<and> qcache (snd (push item now q)) = Some m
                   \<and> nodes (snd (push item now q))
                       = (if resolvers q = [] then nodes q @ [cached e] else nodes q)
                   \<and> delivered (snd (push item now q))
                       = (case resolvers q of [] \<Rightarrow> delivered q
                          | r # rs \<Rightarrow> delivered q @ [(r, cached e)]))
             \<and> (\<forall>m. qcache q = Some m
                     \<and> \<not> (\<exists>e. map_of m (keyFn item) = Some e \<and> now < expires e) \<longrightarrow>
                   cacheHits (metrics (snd (push item now q))) = cacheHits (metrics q)
                   \<and> cacheMisses (metrics (snd (push item now q))) = cacheMisses (metrics q) + 1
                   \<and> qcache (snd (push item now q))
                       = (if fst (push item now q) = Returned True
                          then Some (filter (\<lambda>(key, entry). \<not> expires entry \<le> now)
                                 (map_set (keyFn item)
                                    \<lparr> cached = item, expires = now + ttl \<rparr> m))
                          else Some m))"
    unfolding Let_def q_def keyFn_def ttl_def by (intro conjI)
qed

theorem dedup_gated_by_enableCache_witness:
  "opt_enableCache opts_enable_only = Some True
   \<and> dedup_enabled (new_AsyncQueue json_key (Some opts_enable_only))
   \<and> cacheKeyFn (new_AsyncQueue json_key (Some opts_enable_only)) = Some json_key
   \<and> cacheHits (metrics (run_queue nonzero [Push 1 0, Next 0, Push 1 1]
         (new_AsyncQueue json_key (Some opts_enable_only))))
       + cacheMisses (metrics (run_queue nonzero [Push 1 0, Next 0, Push 1 1]
         (new_AsyncQueue json_key (Some opts_enable_only)))) = 2
   \<and> opt_enableCache opts_keyfn_only = None
   \<and> \<not> dedup_enabled (new_AsyncQueue json_key (Some opts_keyfn_only))
   \<and> qcache (run_queue nonzero [Push 1 0, Next 0, Push 1 1]
         (new_AsyncQueue json_key (Some opts_keyfn_only))) = None
   \<and> cacheHits (metrics (run_queue nonzero [Push 1 0, Next 0, Push 1 1]
         (new_AsyncQueue json_key (Some opts_keyfn_only)))) = 0
   \<and> cacheMisses (metrics (run_queue nonzero [Push 1 0, Next 0, Push 1 1]
         (new_AsyncQueue json_key (Some opts_keyfn_only)))) = 0
   \<and> qcache (new_AsyncQueue json_key (Some opts_enable_only)) = Some []
   \<and> fst (push 1 0 (new_AsyncQueue json_key (Some opts_enable_only))) = Returned True
   \<and> cacheHits (metrics (snd (push 1 0 (new_AsyncQueue json_key (Some opts_enable_only))))) = 0
   \<and> cacheMisses (metrics (snd (push 1 0 (new_AsyncQueue json_key (Some opts_enable_only))))) = 1
   \<and> qcache (snd (push 1 0 (new_AsyncQueue json_key (Some opts_enable_only))))
       = Some [(''1'', \<lparr> cached = 1, expires = 5000 \<rparr>)]
   \<and> qcache (run_queue nonzero [Push 1 0] (new_AsyncQueue json_key (Some opts_enable_only)))
       = Some [(''1'', \<lparr> cached = 1, expires = 5000 \<rparr>)]
   \<and> fst (push 1 1 (run_queue nonzero [Push 1 0] (new_AsyncQueue json_key (Some opts_enable_only))))
       = Returned True
   \<and> cacheHits (metrics (snd (push 1 1
         (run_queue nonzero [Push 1 0] (new_AsyncQueue json_key (Some opts_enable_only)))))) = 1
   \<and> cacheMisses (metrics (snd (push 1 1
         (run_queue nonzero [Push 1 0] (new_AsyncQueue json_key (Some opts_enable_only)))))) = 1
   \<and> nodes (snd (push 1 1
         (run_queue nonzero [Push 1 0] (new_AsyncQueue json_key (Some opts_enable_only))))) = [1, 1]"
proof -
  define q0 :: "int AsyncQueue" where "q0 = new_AsyncQueue json_key (Some opts_enable_only)"
  define q1 where "q1 = run_queue nonzero [Push 1 0] q0"
  have on: "opt_enableCache opts_enable_only = Some True" by (simp add: opts_enable_only_def)
  have off: "opt_enableCache opts_keyfn_only = None" by (simp add: opts_keyfn_only_def)
  have nk: "opt_cacheKeyFn opts_enable_only = None" by (simp add: opts_enable_only_def)
  have nt: "opt_cacheTTL opts_enable_only = None" by (simp add: opts_enable_only_def)
  have q0: "qcache q0 = Some []" "cacheHits (metrics q0) = 0" "cacheMisses (metrics q0) = 0"
    "maxSize q0 = Infinity" "qsize q0 = 0"
    by (simp_all add: q0_def new_AsyncQueue_def opts_enable_only_def Let_def)
  have q1: "qcache q1 = Some [(''1'', \<lparr> cached = 1, expires = 5000 \<rparr>)]"
    "cacheHits (metrics q1) = 0" "cacheMisses (metrics q1) = 1" "nodes q1 = [1]"
    "resolvers q1 = []"
    by (simp_all add: q1_def q0_def run_queue_def new_AsyncQueue_def opts_enable_only_def
          queue_defs json_key_def DEFAULT_CACHE_TTL_def Let_def)
  have r0: "fst (push 1 0 q0) = Returned True"
    by (simp add: q0_def new_AsyncQueue_def opts_enable_only_def queue_defs Let_def)
  note old = dedup_gated_by_enableCache [of json_key "Some opts_enable_only" nonzero
      "[Push 1 0, Next 0, Push 1 1]" 1 0]
    dedup_gated_by_enableCache [of json_key "Some opts_keyfn_only" nonzero
      "[Push 1 0, Next 0, Push 1 1]" 1 0]
  from on off nk old
  have part1: "dedup_enabled (new_AsyncQueue json_key (Some opts_enable_only))
   \<and> cacheKeyFn (new_AsyncQueue json_key (Some opts_enable_only)) = Some json_key
   \<and> cacheHits (metrics (run_queue nonzero [Push 1 0, Next 0, Push 1 1]
         (new_AsyncQueue json_key (Some opts_enable_only))))
       + cacheMisses (metrics (run_queue nonzero [Push 1 0, Next 0, Push 1 1]
         (new_AsyncQueue json_key (Some opts_enable_only)))) = 2
   \<and> \<not> dedup_enabled (new_AsyncQueue json_key (Some opts_keyfn_only))
   \<and> qcache (run_queue nonzero [Push 1 0, Next 0, Push 1 1]
         (new_AsyncQueue json_key (Some opts_keyfn_only))) = None
   \<and> cacheHits (metrics (run_queue nonzero [Push 1 0, Next 0, Push 1 1]
         (new_AsyncQueue json_key (Some opts_keyfn_only)))) = 0
   \<and> cacheMisses (metrics (run_queue nonzero [Push 1 0, Next 0, Push 1 1]
         (new_AsyncQueue json_key (Some opts_keyfn_only)))) = 0"
    by simp
  have e0: "run_queue nonzero [] (new_AsyncQueue json_key (Some opts_enable_only)) = q0"
    by (simp add: run_queue_def q0_def)
  have e1: "run_queue nonzero [Push 1 0] (new_AsyncQueue json_key (Some opts_enable_only)) = q1"
    by (simp add: q1_def q0_def)
  from dedup_gated_by_enableCache [of json_key "Some opts_enable_only" nonzero "[]" 1 0] on nk nt r0 q0
  have miss: "cacheHits (metrics (snd (push 1 0 q0))) = 0
     \<and> cacheMisses (metrics (snd (push 1 0 q0))) = 1
     \<and> qcache (snd (push 1 0 q0)) = Some [(''1'', \<lparr> cached = 1, expires = 5000 \<rparr>)]"
    by (simp add: Let_def e0 json_key_def DEFAULT_CACHE_TTL_def)
  from dedup_gated_by_enableCache [of json_key "Some opts_enable_only" nonzero "[Push 1 0]" 1 1] on nk nt q1
  have hit: "fst (push 1 1 q1) = Returned True
     \<and> cacheHits (metrics (snd (push 1 1 q1))) = 1
     \<and> cacheMisses (metrics (snd (push 1 1 q1))) = 1
     \<and> nodes (snd (push 1 1 q1)) = [1, 1]"
    by (simp add: Let_def e1 json_key_def)
  from on off part1 q0(1) r0 miss q1(1) hit show ?thesis
    unfolding q1_def q0_def by (intro conjI) simp_all
qed

subsection \<open>A cache hit and the capacity\<close>

lemma lt_bound_not_ge: "lt_bound x b \<Longrightarrow> \<not> ge_bound x b"
  by (cases b) auto

lemma ge_bound_succ_gt: "ge_bound x b \<Longrightarrow> gt_bound (x + 1) b"
  by (cases b) auto

text \<open>
  C4. With deduplication enabled, a push whose key hits an entry that has not
  expired, while no consumer waits, returns \<open>true\<close> and appends the cached value
  without the capacity check: nothing is dropped, and when the queue already
  held \<open>maxSize\<close> items (or more) its length afterwards exceeds \<open>maxSize\<close>. The
  instance below reaches such a state from the constructor: \<open>maxSize = 1\<close>, one
  push, then a duplicate push.
\<close>

theorem cache_hit_skips_capacity_check:
  assumes "qcache q = Some m" and "cacheKeyFn q = Some keyFn"
    and "map_of m (keyFn item) = Some entry" and "now < expires entry"
    and "resolvers q = []"
  shows "fst (push item now q) = Returned True
       \<and> nodes (snd (push item now q)) = nodes q @ [cached entry]
       \<and> qsize (snd (push item now q)) = qsize q + 1
       \<and> maxSize (snd (push item now q)) = maxSize q
       \<and> dropped (metrics (snd (push item now q))) = dropped (metrics q)
       \<and> cacheHits (metrics (snd (push item now q))) = cacheHits (metrics q) + 1
       \<and> (ge_bound (qsize q) (maxSize q)
            \<longrightarrow> gt_bound (qsize (snd (push item now q))) (maxSize (snd (push item now q))))"
proof -
  have hit: "dedup_lookup item now q
      = (Some (cached entry), q\<lparr> metrics := (metrics q)\<lparr> cacheHits := cacheHits (metrics q) + 1 \<rparr> \<rparr>)"
    using assms(1-4) by (simp add: dedup_lookup_def)
  have p: "push item now q
      = (Returned True,
         enqueueNode (cached entry)
           (q\<lparr> metrics := (metrics q)\<lparr> cacheHits := cacheHits (metrics q) + 1 \<rparr> \<rparr>))"
    using assms(5) by (simp add: push_def hit shift_resolve_def)
  show ?thesis
    by (simp add: p enqueueNode_def ge_bound_succ_gt)
qed

theorem cache_hit_skips_capacity_check_witness:
  "qcache (snd (push 1 0 (new_AsyncQueue json_key (Some opts_dedup_one))))
     = Some [(''k'', \<lparr> cached = 1, expires = 5000 \<rparr>)]
   \<and> cacheKeyFn (snd (push 1 0 (new_AsyncQueue json_key (Some opts_dedup_one)))) = Some const_key
   \<and> resolvers (snd (push 1 0 (new_AsyncQueue json_key (Some opts_dedup_one)))) = []
   \<and> qsize (snd (push 1 0 (new_AsyncQueue json_key (Some opts_dedup_one)))) = 1
   \<and> maxSize (snd (push 1 0 (new_AsyncQueue json_key (Some opts_dedup_one)))) = Finite 1
   \<and> fst (push 2 1 (snd (push 1 0 (new_AsyncQueue json_key (Some opts_dedup_one))))) = Returned True
   \<and> nodes (snd (push 2 1 (snd (push 1 0 (new_AsyncQueue json_key (Some opts_dedup_one)))))) = [1, 1]
   \<and> qsize (snd (push 2 1 (snd (push 1 0 (new_AsyncQueue json_key (Some opts_dedup_one)))))) = 2
   \<and> gt_bound (qsize (snd (push 2 1 (snd (push 1 0 (new_AsyncQueue json_key (Some opts_dedup_one)))))))
        (maxSize (snd (push 2 1 (snd (push 1 0 (new_AsyncQueue json_key (Some opts_dedup_one)))))))"
proof -
  define q1 where "q1 = snd (push 1 0 (new_AsyncQueue json_key (Some opts_dedup_one)))"
  have q1: "q1 = \<lparr> nodes = [1], qsize = 1, resolvers = [], maxSize = Finite 1, dropStrategy = Oldest,
       qcache = Some [(''k'', \<lparr> cached = 1, expires = 5000 \<rparr>)], cacheKeyFn = Some const_key,
       cacheTTL = Some 5000,
       metrics = \<lparr> enqueued = 1, dequeued = 0, dropped = 0, cacheHits = 0, cacheMisses = 1,
                   currentSize = 1 \<rparr>,
       delivered = [], blocked = [] \<rparr>"
    by (simp add: q1_def opts_dedup_one_def new_AsyncQueue_def queue_defs const_key_def
          DEFAULT_CACHE_TTL_def Let_def)
  have h1: "qcache q1 = Some [(''k'', \<lparr> cached = 1, expires = 5000 \<rparr>)]" by (simp add: q1)
  have h2: "cacheKeyFn q1 = Some const_key" by (simp add: q1)
  have h3: "map_of [(''k'', \<lparr> cached = 1::int, expires = 5000 \<rparr>)] (const_key 2)
              = Some \<lparr> cached = 1, expires = 5000 \<rparr>"
    by (simp add: const_key_def)
  have h4: "1 < expires \<lparr> cached = 1::int, expires = 5000 \<rparr>" by simp
  have h5: "resolvers q1 = []" by (simp add: q1)
  from cache_hit_skips_capacity_check [OF h1 h2 h3 h4 h5] h1 h2 h5
  show ?thesis unfolding q1_def [symmetric] by (simp add: q1)
qed

subsection \<open>Coalescing to the first value\<close>

text \<open>
  With deduplication enabled, room for one item, a key function that gives
  \<open>V1\<close> and \<open>V2\<close> the same key and a positive time to live: pushing \<open>V1\<close>, then
  \<open>V2\<close> before the entry of \<open>V1\<close> expires, then calling \<open>next()\<close> twice yields
  \<open>V1\<close> twice and \<open>cacheHits = 1\<close>, provided \<open>V1\<close> is truthy.
\<close>

lemma dedup_coalesces_first_seen:
  assumes en: "opt_enableCache opt = Some True"
    and kf: "opt_cacheKeyFn opt = Some keyFn" and same_key: "keyFn V2 = keyFn V1"
    and room: "lt_bound 0 (case opt_maxSize opt of None \<Rightarrow> Infinity | Some m \<Rightarrow> m)"
    and ttl: "ttl = (case opt_cacheTTL opt of None \<Rightarrow> DEFAULT_CACHE_TTL | Some t \<Rightarrow> t)"
    and live: "0 < ttl" "t1 < t0 + ttl"
    and truthy: "truthy V1"
  shows "fst (push V1 t0 (new_AsyncQueue stringify (Some opt))) = Returned True
       \<and> fst (push V2 t1 (snd (push V1 t0 (new_AsyncQueue stringify (Some opt))))) = Returned True
       \<and> fst (next_item truthy c1
              (run_queue truthy [Push V1 t0, Push V2 t1] (new_AsyncQueue stringify (Some opt))))
           = Some V1
       \<and> fst (next_item truthy c2
              (run_queue truthy [Push V1 t0, Push V2 t1, Next c1] (new_AsyncQueue stringify (Some opt))))
           = Some V1
       \<and> cacheHits (getMetrics
              (run_queue truthy [Push V1 t0, Push V2 t1, Next c1, Next c2]
                 (new_AsyncQueue stringify (Some opt)))) = 1"
proof -
  define q0 where "q0 = new_AsyncQueue stringify (Some opt)"
  define mx where "mx = (case opt_maxSize opt of None \<Rightarrow> Infinity | Some m \<Rightarrow> m)"
  define q1 where "q1 = q0\<lparr> nodes := [V1], qsize := 1,
       qcache := Some [(keyFn V1, \<lparr> cached = V1, expires = t0 + ttl \<rparr>)],
       metrics := \<lparr> enqueued = 1, dequeued = 0, dropped = 0, cacheHits = 0, cacheMisses = 1,
                    currentSize = 1 \<rparr> \<rparr>"
  define q2 where "q2 = q1\<lparr> nodes := [V1, V1], qsize := 2,
       metrics := \<lparr> enqueued = 2, dequeued = 0, dropped = 0, cacheHits = 1, cacheMisses = 1,
                    currentSize = 2 \<rparr> \<rparr>"
  have q0: "nodes q0 = []" "qsize q0 = 0" "resolvers q0 = []" "maxSize q0 = mx"
    "qcache q0 = Some []" "cacheKeyFn q0 = Some keyFn" "cacheTTL q0 = Some ttl"
    "metrics q0 = \<lparr> enqueued = 0, dequeued = 0, dropped = 0, cacheHits = 0, cacheMisses = 0,
                    currentSize = 0 \<rparr>"
    using en kf ttl by (simp_all add: q0_def mx_def new_AsyncQueue_def Let_def)
  have nofull: "\<not> ge_bound 0 mx" using room lt_bound_not_ge by (simp add: mx_def)
  have p1: "push V1 t0 q0 = (Returned True, q1)"
    using q0 nofull live(1)
    by (simp add: push_def dedup_lookup_def store_and_append_def cleanupCache_def enqueueNode_def
          shift_resolve_def q1_def Let_def)
  have p2: "push V2 t1 q1 = (Returned True, q2)"
    using q0 same_key live(2)
    by (simp add: push_def dedup_lookup_def enqueueNode_def shift_resolve_def q1_def q2_def)
  define q3 where "q3 = q2\<lparr> nodes := [V1], qsize := 1,
       metrics := \<lparr> enqueued = 2, dequeued = 1, dropped = 0, cacheHits = 1, cacheMisses = 1,
                    currentSize = 1 \<rparr> \<rparr>"
  define q4 where "q4 = q3\<lparr> nodes := [], qsize := 0,
       metrics := \<lparr> enqueued = 2, dequeued = 2, dropped = 0, cacheHits = 1, cacheMisses = 1,
                    currentSize = 0 \<rparr> \<rparr>"
  have n1: "next_item truthy c1 q2 = (Some V1, q3)"
    using truthy by (simp add: next_item_def dequeueNode_def q3_def q2_def q1_def)
  have n2: "next_item truthy c2 q3 = (Some V1, q4)"
    using truthy by (simp add: next_item_def dequeueNode_def q4_def q3_def q2_def q1_def)
  have hits: "cacheHits (metrics q4) = 1" by (simp add: q4_def)
  show ?thesis
    unfolding q0_def [symmetric]
    by (simp add: run_queue_def p1 p2 n1 n2 hits getMetrics_def)
qed

text \<open>
  C5. The claim: for a queue that deduplicates with a constant key, pushing
  \<open>V1\<close>, then \<open>V2\<close> before the entry of \<open>V1\<close> expires, then calling \<open>next()\<close>
  twice yields \<open>V1\<close> from both calls, with \<open>cacheHits = 1\<close>. On a queue of
  numbers with \<open>V1 = 0\<close> and \<open>V2 = 1\<close> both pushes return \<open>true\<close> and the buffer
  holds 0 twice, but neither \<open>next()\<close> yields it: each call removes a 0 from
  the buffer, fails the test \<open>if (item)\<close> and is left suspended.
\<close>

theorem dedup_falsy_first_value_not_yielded:
  "nonzero 1 \<and> \<not> nonzero 0
   \<and> fst (push 0 0 (new_AsyncQueue json_key (Some opts_dedup_const))) = Returned True
   \<and> fst (push 1 1 (snd (push 0 0 (new_AsyncQueue json_key (Some opts_dedup_const))))) = Returned True
   \<and> nodes (run_queue nonzero [Push 0 0, Push 1 1] (new_AsyncQueue json_key (Some opts_dedup_const)))
       = [0, 0]
   \<and> fst (next_item nonzero 0
        (run_queue nonzero [Push 0 0, Push 1 1] (new_AsyncQueue json_key (Some opts_dedup_const))))
       = None
   \<and> fst (next_item nonzero 1
        (run_queue nonzero [Push 0 0, Push 1 1, Next 0] (new_AsyncQueue json_key (Some opts_dedup_const))))
       = None
   \<and> nodes (run_queue nonzero [Push 0 0, Push 1 1, Next 0, Next 1]
        (new_AsyncQueue json_key (Some opts_dedup_const))) = []
   \<and> resolvers (run_queue nonzero [Push 0 0, Push 1 1, Next 0, Next 1]
        (new_AsyncQueue json_key (Some opts_dedup_const))) = [0, 1]
   \<and> delivered (run_queue nonzero [Push 0 0, Push 1 1, Next 0, Next 1]
        (new_AsyncQueue json_key (Some opts_dedup_const))) = []
   \<and> cacheHits (getMetrics (run_queue nonzero [Push 0 0, Push 1 1, Next 0, Next 1]
        (new_AsyncQueue json_key (Some opts_dedup_const)))) = 1"
  by (simp add: opts_dedup_const_def new_AsyncQueue_def run_queue_def queue_defs const_key_def
        nonzero_def getMetrics_def DEFAULT_CACHE_TTL_def Let_def)

subsection \<open>Dropping the oldest item\<close>

text \<open>
  C6. On a new queue with \<open>maxSize = 2\<close>, \<open>dropStrategy = "oldest"\<close> and no
  deduplication, pushing \<open>A\<close>, \<open>B\<close>, \<open>C\<close> returns \<open>true\<close> three times and leaves
  the buffer \<open>B\<close>, \<open>C\<close> in this order, with \<open>dropped = 1\<close>.
\<close>

theorem drop_oldest_keeps_newest_two:
  assumes "opt_maxSize opt = Some (Finite 2)" and "opt_dropStrategy opt = Some Oldest"
    and "opt_enableCache opt \<noteq> Some True"
  shows "fst (push A t1 (new_AsyncQueue stringify (Some opt))) = Returned True
       \<and> fst (push B t2 (snd (push A t1 (new_AsyncQueue stringify (Some opt))))) = Returned True
       \<and> fst (push C t3 (snd (push B t2 (snd (push A t1 (new_AsyncQueue stringify (Some opt)))))))
           = Returned True
       \<and> nodes (run_queue truthy [Push A t1, Push B t2, Push C t3]
            (new_AsyncQueue stringify (Some opt))) = [B, C]
       \<and> qsize (run_queue truthy [Push A t1, Push B t2, Push C t3]
            (new_AsyncQueue stringify (Some opt))) = 2
       \<and> dropped (getMetrics (run_queue truthy [Push A t1, Push B t2, Push C t3]
            (new_AsyncQueue stringify (Some opt)))) = 1"
  using assms
  by (simp add: new_AsyncQueue_def run_queue_def queue_defs getMetrics_def Let_def)

theorem drop_oldest_keeps_newest_two_witness:
  "opt_maxSize opts_oldest_two = Some (Finite 2) \<and> opt_dropStrategy opts_oldest_two = Some Oldest
   \<and> opt_enableCache opts_oldest_two \<noteq> Some True
   \<and> fst (push 30 2 (snd (push 20 1 (snd (push 10 0 (new_AsyncQueue json_key (Some opts_oldest_two)))))))
       = Returned True
   \<and> nodes (run_queue nonzero [Push 10 0, Push 20 1, Push 30 2]
        (new_AsyncQueue json_key (Some opts_oldest_two))) = [20, 30]
   \<and> dropped (getMetrics (run_queue nonzero [Push 10 0, Push 20 1, Push 30 2]
        (new_AsyncQueue json_key (Some opts_oldest_two)))) = 1"
proof -
  have h1: "opt_maxSize opts_oldest_two = Some (Finite 2)" by (simp add: opts_oldest_two_def)
  have h2: "opt_dropStrategy opts_oldest_two = Some Oldest" by (simp add: opts_oldest_two_def)
  have h3: "opt_enableCache opts_oldest_two \<noteq> Some True" by (simp add: opts_oldest_two_def)
  from drop_oldest_keeps_newest_two [OF h1 h2 h3, of 10 0 json_key 20 1 30 2 nonzero] h1 h2 h3
  show ?thesis by simp
qed

section \<open>Properties of the worker pool\<close>

subsection \<open>A worker started by the timer is not awaited\<close>

text \<open>
  C10. The claim: in the metrics that \<open>work\<close> returns, \<open>currentConcurrency\<close> is
  always 0, because the result is read only after all workers have returned.
  \<open>work\<close> awaits the workers that are in the array when \<open>Promise.all\<close> is called;
  a worker that the interval timer starts later is not among them. Three
  items, \<open>{min: 1, max: 2}\<close>: the one initial worker takes item 3; the timer
  fires and starts a second worker, which takes item 2; item 3 settles and the
  initial worker, finding two active workers for one pending item, retires.
  \<open>work\<close> then returns while the second worker is still active and item 1 is
  still pending: \<open>completed = 1\<close> and \<open>currentConcurrency = 1\<close>.
\<close>

theorem work_returns_before_scaled_worker:
  "fst (work (Range 1 2) [1, 2, 3] always_resolves None never_undefined [Tick, Settle 0 0])
     = Resolved \<lparr> completed = 1, failed = 0, total = 3, currentConcurrency = 1 \<rparr>
   \<and> pending (snd (work (Range 1 2) [1, 2, 3] always_resolves None never_undefined
        [Tick, Settle 0 0])) = [1]
   \<and> workers (snd (work (Range 1 2) [1, 2, 3] always_resolves None never_undefined
        [Tick, Settle 0 0])) = [Finished, Awaiting [(2, False)]]"
  by code_simp

text \<open>
  C7. The claim: over 10 items of which \<open>fn\<close> rejects exactly 3, \<open>work\<close> returns
  \<open>completed = 7\<close>, \<open>failed = 3\<close>, \<open>total = 10\<close>, and \<open>onError\<close> is called 3 times.
  Take \<open>{min: 1, max: 4}\<close> and an \<open>fn\<close> that settles 150 ms after its call. The
  initial worker takes item 10; at 100 ms the timer starts three workers, which
  take 9, 8 and 7; the workers go on with 6, 5, 4 and 3 while two of the later
  workers retire; at 450 ms item 3 settles and the initial worker, finding two
  active workers for one pending item, retires too. \<open>work\<close> returns at that
  moment, with item 2 still in progress and item 1 still pending:
  \<open>completed = 6\<close>, \<open>failed = 2\<close>, after 2 calls of \<open>onError\<close>.
\<close>

theorem work_miscounts_three_failures_of_ten:
  "length (filter (\<lambda>x. rejects_259 x \<noteq> None) [1, 2, 3, 4, 5, 6, 7, 8, 9, 10]) = 3
   \<and> fst (work (Range 1 4) [1, 2, 3, 4, 5, 6, 7, 8, 9, 10] rejects_259 (Some opts_onError)
        never_undefined
        [Tick, Settle 0 0, Tick, Settle 1 0, Settle 2 0, Settle 3 0, Settle 0 0, Tick,
         Settle 1 0, Settle 2 0, Tick, Settle 0 0])
     = Resolved \<lparr> completed = 6, failed = 2, total = 10, currentConcurrency = 1 \<rparr>
   \<and> onError_calls (snd (work (Range 1 4) [1, 2, 3, 4, 5, 6, 7, 8, 9, 10] rejects_259 (Some opts_onError)
        never_undefined
        [Tick, Settle 0 0, Tick, Settle 1 0, Settle 2 0, Settle 3 0, Settle 0 0, Tick,
         Settle 1 0, Settle 2 0, Tick, Settle 0 0]))
     = [(''boom'', 9), (''boom'', 5)]
   \<and> pending (snd (work (Range 1 4) [1, 2, 3, 4, 5, 6, 7, 8, 9, 10] rejects_259 (Some opts_onError)
        never_undefined
        [Tick, Settle 0 0, Tick, Settle 1 0, Settle 2 0, Settle 3 0, Settle 0 0, Tick,
         Settle 1 0, Settle 2 0, Tick, Settle 0 0])) = [1]
   \<and> workers (snd (work (Range 1 4) [1, 2, 3, 4, 5, 6, 7, 8, 9, 10] rejects_259 (Some opts_onError)
        never_undefined
        [Tick, Settle 0 0, Tick, Settle 1 0, Settle 2 0, Settle 3 0, Settle 0 0, Tick,
         Settle 1 0, Settle 2 0, Tick, Settle 0 0]))
     = [Finished, Finished, Awaiting [(2, False)], Finished]"
  by code_simp

subsection \<open>A fixed number of workers\<close>

text \<open>Arithmetic and lists.\<close>

lemma ceil_div_pos: "1 \<le> b \<Longrightarrow> ceil_div x b = Num (- ((- x) div b))"
  by (simp add: ceil_div_def)

lemma ceil_less_mult:
  fixes j x b :: int
  assumes "1 \<le> b" and "j < - ((- x) div b)"
  shows "j * b < x"
proof -
  let ?q = "(- x) div b" and ?r = "(- x) mod b"
  have eq: "- x = b * ?q + ?r" by simp
  have r: "?r < b" using assms(1) by simp
  from assms(2) have "j + 1 \<le> - ?q" by simp
  then have "(j + 1) * b \<le> (- ?q) * b" using assms(1) by (intro mult_right_mono) auto
  then have "j * b + b \<le> - (b * ?q)" by (simp add: algebra_simps)
  with eq r show ?thesis by linarith
qed

lemma ceil_mono:
  fixes x y b :: int
  assumes "1 \<le> b" and "x \<le> y"
  shows "- ((- x) div b) \<le> - ((- y) div b)"
  using assms zdiv_mono1 by force

lemma sum_list_update_int:
  fixes xs :: "int list"
  shows "i < length xs \<Longrightarrow> sum_list (xs[i := x]) = sum_list xs - xs ! i + x"
proof (induction xs arbitrary: i)
  case Nil
  then show ?case by simp
next
  case (Cons y ys)
  then show ?case by (cases i) auto
qed

lemma filter_update_count:
  "i < length xs \<Longrightarrow>
     int (length (filter P (xs[i := x])))
       = int (length (filter P xs)) - (if P (xs ! i) then 1 else 0) + (if P x then 1 else 0)"
proof (induction xs arbitrary: i)
  case Nil
  then show ?case by simp
next
  case (Cons y ys)
  show ?case
  proof (cases i)
    case 0
    then show ?thesis by simp
  next
    case (Suc k)
    with Cons.prems have "k < length ys" by simp
    from Cons.IH [OF this] Suc show ?thesis by (auto split: if_splits)
  qed
qed

lemma count_items_append: "count_items P (xs @ ys) = count_items P xs + count_items P ys"
  by (simp add: count_items_def)

lemma count_items_rev: "count_items P (rev xs) = count_items P xs"
  by (simp add: count_items_def flip: rev_filter)

lemma count_items_nonneg: "0 \<le> count_items P xs"
  by (simp add: count_items_def)

lemma count_items_le_length: "count_items P xs \<le> int (length xs)"
  by (simp add: count_items_def)

lemma unsettled_fresh: "unsettled (Awaiting (map (\<lambda>item. (item, False)) batch)) = batch"
  by (simp add: unsettled_def filter_map o_def)

lemma in_progress_append:
  "in_progress P (ws @ [st]) = in_progress P ws + count_items P (unsettled st)"
  by (simp add: in_progress_def)

lemma in_progress_update:
  "w < length ws \<Longrightarrow>
     in_progress P (ws[w := st])
       = in_progress P ws - count_items P (unsettled (ws ! w)) + count_items P (unsettled st)"
  by (simp add: in_progress_def map_update sum_list_update_int)

lemma take_prefix:
  "take k xs = a @ b \<Longrightarrow> a = take (length a) xs"
  by (metis append_eq_conv_conj take_take min.absorb1 length_take
        append_eq_append_conv le_add1 length_append min.cobounded1 take_all_iff take_append)

text \<open>The worker loop under a fixed number of workers.\<close>

lemma worker_loop_empty:
  "pending s = [] \<Longrightarrow>
     worker_loop env s = Some (Finished, s\<lparr> activeWorkers := activeWorkers s - 1 \<rparr>)"
  by (subst worker_loop.simps) simp

lemma worker_loop_takes:
  assumes bs: "1 \<le> batchSize env" and act: "activeWorkers s \<le> minConcurrency env"
    and def: "list_all (\<lambda>x. \<not> isUndefined env x) (pending s)"
    and ne: "pending s \<noteq> []"
  shows "\<exists>batch rest. batch \<noteq> [] \<and> pending s = rest @ rev batch
           \<and> int (length batch) \<le> batchSize env
           \<and> worker_loop env s
               = Some (Awaiting (map (\<lambda>item. (item, False)) batch), s\<lparr> pending := rest \<rparr>)"
proof (cases "enableBatching env")
  case True
  define n where "n = min (nat (batchSize env)) (length (pending s))"
  define batch where "batch = take n (rev (pending s))"
  define rest where "rest = take (length (pending s) - n) (pending s)"
  have n: "1 \<le> n" using bs ne by (cases "pending s") (auto simp: n_def)
  have b: "batch \<noteq> []" using n ne by (cases "rev (pending s)") (auto simp: batch_def)
  have "rev batch = drop (length (pending s) - n) (pending s)"
    by (simp add: batch_def rev_take)
  then have split: "pending s = rest @ rev batch" by (simp add: rest_def)
  have len: "int (length batch) \<le> batchSize env" using bs by (simp add: batch_def n_def)
  have "worker_loop env s
      = Some (Awaiting (map (\<lambda>item. (item, False)) batch), s\<lparr> pending := rest \<rparr>)"
    using True ne act b n
    by (subst worker_loop.simps) (simp add: Let_def n_def [symmetric] batch_def [symmetric] rest_def)
  with b split len show ?thesis by blast
next
  case False
  have split: "pending s = butlast (pending s) @ rev [last (pending s)]" using ne by simp
  from def ne have "\<not> isUndefined env (last (pending s))"
    by (simp add: list_all_iff)
  then have "worker_loop env s
      = Some (Awaiting (map (\<lambda>item. (item, False)) [last (pending s)]),
              s\<lparr> pending := butlast (pending s) \<rparr>)"
    using False ne act by (subst worker_loop.simps) (simp add: Let_def)
  moreover have "int (length [last (pending s)]) \<le> batchSize env" using bs by simp
  ultimately show ?thesis using split by blast
qed

text \<open>Starting the initial workers.\<close>

lemma count_all_Awaiting:
  "list_all is_Awaiting ws \<Longrightarrow> count_items is_Awaiting ws = int (length ws)"
  by (simp add: count_items_def list_all_iff)

lemma list_all_take: "list_all P xs \<Longrightarrow> list_all P (take k xs)"
  by (auto simp: list_all_iff dest: in_set_takeD)

lemma start_worker_fixed:
  assumes env: "env_fixed env items" and inv: "start_inv env items j s"
    and j1: "int j < minConcurrency env"
    and j2: "int j < - ((- total_items env) div batchSize env)"
  shows "\<exists>s'. start_worker env s = Some s' \<and> start_inv env items (Suc j) s'"
proof -
  from env have bs: "1 \<le> batchSize env" and tot: "total_items env = int (length items)"
    and undef: "list_all (\<lambda>x. \<not> isUndefined env x) items"
    by (simp_all add: env_fixed_def)
  from inv have core: "core_inv env items s" and len: "length (workers s) = j"
    and allA: "list_all is_Awaiting (workers s)"
    and remain: "int (length items) - int j * batchSize env \<le> int (length (pending s))"
    by (simp_all add: start_inv_def)
  from core obtain k where pre: "pending s = take k items" by (auto simp: core_inv_def)
  from core have act: "activeWorkers s = int j"
    using count_all_Awaiting [OF allA] len by (simp add: core_inv_def)
  from ceil_less_mult [OF bs j2] tot have "int j * batchSize env < int (length items)" by simp
  with remain have ne: "pending s \<noteq> []" by auto
  define s1 where "s1 = s\<lparr> activeWorkers := activeWorkers s + 1 \<rparr>"
  have p1: "pending s1 = pending s" by (simp add: s1_def)
  have a1: "activeWorkers s1 \<le> minConcurrency env" using act j1 by (simp add: s1_def)
  have u1: "list_all (\<lambda>x. \<not> isUndefined env x) (pending s1)"
    using undef by (simp add: p1 pre list_all_take)
  from worker_loop_takes [OF bs a1 u1] ne p1 obtain batch rest
    where b: "batch \<noteq> []" and split: "pending s = rest @ rev batch"
      and blen: "int (length batch) \<le> batchSize env"
      and wl: "worker_loop env s1
               = Some (Awaiting (map (\<lambda>item. (item, False)) batch), s1\<lparr> pending := rest \<rparr>)"
    by auto
  define s' where "s' = s1\<lparr> pending := rest,
      workers := workers s @ [Awaiting (map (\<lambda>item. (item, False)) batch)] \<rparr>"
  have sw: "start_worker env s = Some s'"
    by (simp add: start_worker_def s1_def [symmetric] wl s'_def) (simp add: s1_def)
  from pre split have rest: "rest = take (length rest) items" by (metis take_prefix)
  have allA': "list_all is_Awaiting (workers s')"
    using allA by (simp add: s'_def is_Awaiting_def)
  have core': "core_inv env items s'"
    unfolding core_inv_def
  proof (intro conjI)
    show "\<exists>k. pending s' = take k items" using rest by (auto simp: s'_def)
    show "activeWorkers s' = count_items is_Awaiting (workers s')"
      using act len count_all_Awaiting [OF allA'] by (simp add: s'_def s1_def)
    show "pending s' \<noteq> [] \<longrightarrow> list_all is_Awaiting (workers s')" using allA' by simp
    show "completed_items s' + count_items (resolves env) (pending s')
            + in_progress (resolves env) (workers s') = count_items (resolves env) items"
      using core split
      by (simp add: core_inv_def s'_def s1_def in_progress_append unsettled_fresh
            count_items_append count_items_rev)
    show "failed_items s' + count_items (rejects env) (pending s')
            + in_progress (rejects env) (workers s') = count_items (rejects env) items"
      using core split
      by (simp add: core_inv_def s'_def s1_def in_progress_append unsettled_fresh
            count_items_append count_items_rev)
    show "onError_given env \<longrightarrow> int (length (onError_calls s')) = failed_items s'"
      using core by (simp add: core_inv_def s'_def s1_def)
  qed
  from split have "int (length (pending s)) = int (length rest) + int (length batch)" by simp
  with remain blen
  have "int (length items) - int (Suc j) * batchSize env \<le> int (length (pending s'))"
    by (simp add: s'_def algebra_simps)
  with core' allA' len have "start_inv env items (Suc j) s'"
    by (simp add: start_inv_def s'_def)
  with sw show ?thesis by blast
qed

lemma start_workers_fixed:
  "env_fixed env items \<Longrightarrow> start_inv env items j s \<Longrightarrow>
     int (j + m) \<le> minConcurrency env \<Longrightarrow>
     int (j + m) \<le> - ((- total_items env) div batchSize env) \<Longrightarrow>
     \<exists>s'. start_workers m env s = Some s' \<and> start_inv env items (j + m) s'"
proof (induction m arbitrary: j s)
  case 0
  then show ?case by simp
next
  case (Suc m)
  from Suc.prems(3) have j1: "int j < minConcurrency env" by simp
  from Suc.prems(4) have j2: "int j < - ((- total_items env) div batchSize env)" by simp
  from start_worker_fixed [OF Suc.prems(1,2) j1 j2] obtain s1
    where sw: "start_worker env s = Some s1" and inv1: "start_inv env items (Suc j) s1" by blast
  from Suc.prems(3) have a: "int (Suc j + m) \<le> minConcurrency env" by simp
  from Suc.prems(4) have b: "int (Suc j + m) \<le> - ((- total_items env) div batchSize env)" by simp
  from Suc.IH [OF Suc.prems(1) inv1 a b] sw show ?case by simp
qed

lemma initial_pool_start_inv:
  "start_inv env items 0 (initial_pool items)"
  by (auto simp: start_inv_def core_inv_def initial_pool_def in_progress_def count_items_def
        intro: exI [of _ "length items"])

lemma ceil_nonneg:
  fixes x b :: int
  shows "1 \<le> b \<Longrightarrow> 0 \<le> x \<Longrightarrow> 0 \<le> - ((- x) div b)"
  by (simp add: div_nonpos_pos_le0)

lemma ceil_pos:
  fixes x b :: int
  shows "1 \<le> b \<Longrightarrow> 0 < x \<Longrightarrow> 0 < - ((- x) div b)"
  by (simp add: div_neg_pos_less0)

lemma work_start_fixed:
  assumes env: "env_fixed env items"
  shows "\<exists>s. work_start env items = Some s \<and> run_inv env items s"
proof -
  from env have bs: "1 \<le> batchSize env" and tot: "total_items env = int (length items)"
    and mc: "1 \<le> minConcurrency env"
    by (simp_all add: env_fixed_def)
  define c where "c = - ((- total_items env) div batchSize env)"
  define k where "k = nat (min (minConcurrency env) c)"
  have c0: "0 \<le> c" using ceil_nonneg [OF bs, of "total_items env"] tot by (simp add: c_def)
  have k: "int k = min (minConcurrency env) c" using c0 mc by (simp add: k_def)
  have init: "times_of (min_num (minConcurrency env) (ceil_div (total_items env) (batchSize env))) = k"
    by (simp add: ceil_div_pos [OF bs] k_def c_def)
  from k have k1: "int (0 + k) \<le> minConcurrency env" by simp
  from k have k2: "int (0 + k) \<le> - ((- total_items env) div batchSize env)" by (simp add: c_def)
  from start_workers_fixed [OF env initial_pool_start_inv k1 k2] obtain s
    where sw: "start_workers k env (initial_pool items) = Some s"
      and inv: "start_inv env items k s" by auto
  have ws: "work_start env items = Some (s\<lparr> awaited := length (workers s) \<rparr>)"
    by (simp add: work_start_def init sw)
  have "run_inv env items (s\<lparr> awaited := length (workers s) \<rparr>)"
    using inv k by (auto simp: run_inv_def start_inv_def core_inv_def c_def)
  with ws show ?thesis by blast
qed

text \<open>The timer starts no worker.\<close>

lemma count_Awaiting_le: "count_items is_Awaiting ws \<le> int (length ws)"
  by (rule count_items_le_length)

lemma scaler_fixed:
  assumes env: "env_fixed env items" and inv: "run_inv env items s"
  shows "scaler env s = Some s"
proof -
  from env have bs: "1 \<le> batchSize env" and tot: "total_items env = int (length items)"
    and mm: "minConcurrency env = maxConcurrency env"
    by (simp_all add: env_fixed_def)
  from inv [unfolded run_inv_def]
  have core: "core_inv env items s" and aw: "awaited s = length (workers s)"
    and le: "int (awaited s) \<le> minConcurrency env"
    and alt: "int (awaited s) = minConcurrency env
           \<or> - ((- total_items env) div batchSize env) \<le> int (awaited s)"
    by blast+
  from core have act: "activeWorkers s = count_items is_Awaiting (workers s)"
    by (simp add: core_inv_def)
  have a0: "0 \<le> activeWorkers s" by (simp add: act count_items_nonneg)
  define c where "c = - ((- int (length (pending s))) div batchSize env)"
  have cd: "ceil_div (int (length (pending s))) (batchSize env) = Num c"
    by (simp add: ceil_div_pos [OF bs] c_def)
  have "min (maxConcurrency env - activeWorkers s) (c - activeWorkers s) \<le> 0"
  proof (cases "pending s = []")
    case True
    then have "c = 0" by (simp add: c_def)
    with a0 show ?thesis by simp
  next
    case False
    with core have "list_all is_Awaiting (workers s)" by (simp add: core_inv_def)
    from count_all_Awaiting [OF this] act aw have full: "activeWorkers s = int (awaited s)" by simp
    from alt show ?thesis
    proof
      assume "int (awaited s) = minConcurrency env"
      with full mm show ?thesis by simp
    next
      assume big: "- ((- total_items env) div batchSize env) \<le> int (awaited s)"
      from core obtain k where "pending s = take k items" by (auto simp: core_inv_def)
      then have "int (length (pending s)) \<le> total_items env" by (simp add: tot)
      from ceil_mono [OF bs this] have "c \<le> - ((- total_items env) div batchSize env)"
        by (simp add: c_def)
      with big full show ?thesis by simp
    qed
  qed
  then show ?thesis by (simp add: scaler_def cd Let_def)
qed

text \<open>A settled item.\<close>

lemma item_settled_fields:
  "pending (item_settled env item s) = pending s"
  "workers (item_settled env item s) = workers s"
  "activeWorkers (item_settled env item s) = activeWorkers s"
  "awaited (item_settled env item s) = awaited s"
  "completed_items (item_settled env item s)
     = completed_items s + (if resolves env item then 1 else 0)"
  "failed_items (item_settled env item s)
     = failed_items s + (if rejects env item then 1 else 0)"
  "onError_given env \<Longrightarrow>
     int (length (onError_calls (item_settled env item s)))
       = int (length (onError_calls s)) + (if rejects env item then 1 else 0)"
  by (auto simp: item_settled_def Let_def resolves_def rejects_def split: option.splits)

lemma unsettled_count:
  "count_items P (unsettled (Awaiting batch))
     = int (length (filter (\<lambda>p. \<not> snd p \<and> P (fst p)) batch))"
  by (simp add: unsettled_def count_items_def filter_map o_def conj_commute)

lemma unsettled_after_settle:
  assumes "i < length batch" and "\<not> snd (batch ! i)"
  shows "count_items P (unsettled (Awaiting (batch[i := (fst (batch ! i), True)])))
       = count_items P (unsettled (Awaiting batch)) - (if P (fst (batch ! i)) then 1 else 0)"
  using filter_update_count [OF assms(1), of "\<lambda>p. \<not> snd p \<and> P (fst p)" "(fst (batch ! i), True)"]
    assms(2)
  by (simp add: unsettled_count)

lemma unsettled_all_settled:
  "list_all snd batch \<Longrightarrow> count_items P (unsettled (Awaiting batch)) = 0"
  by (simp add: unsettled_count list_all_iff)

lemma list_all_update:
  "list_all P xs \<Longrightarrow> P x \<Longrightarrow> list_all P (xs[i := x])"
  by (auto simp: list_all_iff dest: set_update_subset_insert [THEN subsetD])

lemma count_Awaiting_update:
  assumes "w < length ws" and "is_Awaiting (ws ! w)"
  shows "count_items is_Awaiting (ws[w := st])
       = count_items is_Awaiting ws - (if is_Awaiting st then 0 else 1)"
  using filter_update_count [OF assms(1), of is_Awaiting st] assms(2)
  by (simp add: count_items_def)

lemma settle_fixed:
  assumes env: "env_fixed env items" and inv: "run_inv env items s"
  shows "\<exists>s'. settle env w i s = Some s' \<and> run_inv env items s'"
proof (cases "w < length (workers s)")
  case False
  with inv show ?thesis by (simp add: settle_def)
next
  case w: True
  show ?thesis
  proof (cases "workers s ! w")
    case Finished
    with w inv show ?thesis by (simp add: settle_def)
  next
    case (Awaiting batch)
    show ?thesis
    proof (cases "i < length batch \<and> \<not> snd (batch ! i)")
      case False
      with w Awaiting inv show ?thesis by (auto simp: settle_def)
    next
      case True
      then have i: "i < length batch" and open_i: "\<not> snd (batch ! i)" by auto
      from env have bs: "1 \<le> batchSize env"
        and undef: "list_all (\<lambda>x. \<not> isUndefined env x) items"
        by (simp_all add: env_fixed_def)
      from inv [unfolded run_inv_def]
      have core: "core_inv env items s" and aw: "awaited s = length (workers s)"
        and le: "int (awaited s) \<le> minConcurrency env"
        and alt: "int (awaited s) = minConcurrency env
           \<or> - ((- total_items env) div batchSize env) \<le> int (awaited s)"
        by blast+
      from core [unfolded core_inv_def]
      obtain k where pre: "pending s = take k items" by blast
      from core [unfolded core_inv_def]
      have act: "activeWorkers s = count_items is_Awaiting (workers s)"
        and allA: "pending s \<noteq> [] \<longrightarrow> list_all is_Awaiting (workers s)"
        and cnt_ok: "completed_items s + count_items (resolves env) (pending s)
            + in_progress (resolves env) (workers s) = count_items (resolves env) items"
        and cnt_bad: "failed_items s + count_items (rejects env) (pending s)
            + in_progress (rejects env) (workers s) = count_items (rejects env) items"
        and err: "onError_given env \<longrightarrow> int (length (onError_calls s)) = failed_items s"
        by blast+
      define item where "item = fst (batch ! i)"
      define s1 where "s1 = item_settled env item s"
      define batch1 where "batch1 = batch[i := (item, True)]"
      note f = item_settled_fields [of env item s, folded s1_def]
      have isA: "is_Awaiting (workers s ! w)" by (simp add: Awaiting is_Awaiting_def)
      have upd: "\<And>P. count_items P (unsettled (Awaiting batch1))
          = count_items P (unsettled (workers s ! w)) - (if P item then 1 else 0)"
        using unsettled_after_settle [OF i open_i] by (simp add: batch1_def item_def Awaiting)
      have err1: "onError_given env \<longrightarrow> int (length (onError_calls s1)) = failed_items s1"
        using err f(6) f(7) by simp
      show ?thesis
      proof (cases "list_all snd batch1")
        case False
        define s' where "s' = s1\<lparr> workers := (workers s1)[w := Awaiting batch1] \<rparr>"
        have st: "settle env w i s = Some s'"
          using w Awaiting True False
          by (simp add: settle_def Let_def item_def [symmetric] s1_def [symmetric]
                batch1_def [symmetric] s'_def)
        have core': "core_inv env items s'"
          unfolding core_inv_def
        proof (intro conjI)
          show "\<exists>k. pending s' = take k items" using pre by (auto simp: s'_def f)
          show "activeWorkers s' = count_items is_Awaiting (workers s')"
            using act count_Awaiting_update [OF w isA, of "Awaiting batch1"]
            by (simp add: s'_def f is_Awaiting_def)
          show "pending s' \<noteq> [] \<longrightarrow> list_all is_Awaiting (workers s')"
            using allA by (auto simp: s'_def f is_Awaiting_def intro: list_all_update)
          show "completed_items s' + count_items (resolves env) (pending s')
            + in_progress (resolves env) (workers s') = count_items (resolves env) items"
            using cnt_ok upd [of "resolves env"]
            by (simp add: s'_def f in_progress_update [OF w])
          show "failed_items s' + count_items (rejects env) (pending s')
            + in_progress (rejects env) (workers s') = count_items (rejects env) items"
            using cnt_bad upd [of "rejects env"]
            by (simp add: s'_def f in_progress_update [OF w])
          show "onError_given env \<longrightarrow> int (length (onError_calls s')) = failed_items s'"
            using err1 by (simp add: s'_def)
        qed
        have "run_inv env items s'"
          unfolding run_inv_def using core' aw le alt by (simp add: s'_def f)
        with st show ?thesis by blast
      next
        case settled: True
        have zero: "\<And>P. count_items P (unsettled (workers s ! w)) = (if P item then 1 else 0)"
          using upd unsettled_all_settled [OF settled] by (simp split: if_splits)
        show ?thesis
        proof (cases "pending s = []")
          case empty: True
          define s' where "s' = s1\<lparr> activeWorkers := activeWorkers s1 - 1,
              workers := (workers s1)[w := Finished] \<rparr>"
          have wl: "worker_loop env s1 = Some (Finished, s1\<lparr> activeWorkers := activeWorkers s1 - 1 \<rparr>)"
            using empty by (simp add: worker_loop_empty f)
          have st: "settle env w i s = Some s'"
            using w Awaiting True settled
            by (simp add: settle_def Let_def item_def [symmetric] s1_def [symmetric]
                  batch1_def [symmetric] wl s'_def)
          have core': "core_inv env items s'"
            unfolding core_inv_def
          proof (intro conjI)
            show "\<exists>k. pending s' = take k items" using pre by (auto simp: s'_def f)
            show "activeWorkers s' = count_items is_Awaiting (workers s')"
              using act count_Awaiting_update [OF w isA, of Finished]
              by (simp add: s'_def f is_Awaiting_def)
            show "pending s' \<noteq> [] \<longrightarrow> list_all is_Awaiting (workers s')"
              using empty by (simp add: s'_def f)
            show "completed_items s' + count_items (resolves env) (pending s')
              + in_progress (resolves env) (workers s') = count_items (resolves env) items"
              using cnt_ok zero [of "resolves env"]
              by (simp add: s'_def f in_progress_update [OF w] unsettled_def count_items_def)
            show "failed_items s' + count_items (rejects env) (pending s')
              + in_progress (rejects env) (workers s') = count_items (rejects env) items"
              using cnt_bad zero [of "rejects env"]
              by (simp add: s'_def f in_progress_update [OF w] unsettled_def count_items_def)
            show "onError_given env \<longrightarrow> int (length (onError_calls s')) = failed_items s'"
              using err1 by (simp add: s'_def)
          qed
          have "run_inv env items s'"
            unfolding run_inv_def using core' aw le alt by (simp add: s'_def f)
          with st show ?thesis by blast
        next
          case nonempty: False
          have a1: "activeWorkers s1 \<le> minConcurrency env"
            using act count_Awaiting_le [of "workers s"] aw le by (simp add: f)
          have u1: "list_all (\<lambda>x. \<not> isUndefined env x) (pending s1)"
            using undef by (simp add: f pre list_all_take)
          from worker_loop_takes [OF bs a1 u1] nonempty obtain fresh rest
            where split: "pending s = rest @ rev fresh"
              and wl: "worker_loop env s1
                 = Some (Awaiting (map (\<lambda>item. (item, False)) fresh), s1\<lparr> pending := rest \<rparr>)"
            by (auto simp: f)
          define s' where "s' = s1\<lparr> pending := rest,
              workers := (workers s1)[w := Awaiting (map (\<lambda>item. (item, False)) fresh)] \<rparr>"
          have st: "settle env w i s = Some s'"
            using w Awaiting True settled
            by (simp add: settle_def Let_def item_def [symmetric] s1_def [symmetric]
                  batch1_def [symmetric] wl s'_def)
          from pre split have rest: "rest = take (length rest) items" by (metis take_prefix)
          from allA nonempty have allA0: "list_all is_Awaiting (workers s)" by simp
          have core': "core_inv env items s'"
            unfolding core_inv_def
          proof (intro conjI)
            show "\<exists>k. pending s' = take k items" using rest by (auto simp: s'_def)
            show "activeWorkers s' = count_items is_Awaiting (workers s')"
              using act count_Awaiting_update [OF w isA, of "Awaiting (map (\<lambda>item. (item, False)) fresh)"]
              by (simp add: s'_def f is_Awaiting_def)
            show "pending s' \<noteq> [] \<longrightarrow> list_all is_Awaiting (workers s')"
              using allA0 by (auto simp: s'_def f is_Awaiting_def intro: list_all_update)
            show "completed_items s' + count_items (resolves env) (pending s')
              + in_progress (resolves env) (workers s') = count_items (resolves env) items"
              using cnt_ok zero [of "resolves env"] split
              by (simp add: s'_def f in_progress_update [OF w] unsettled_fresh
                    count_items_append count_items_rev)
            show "failed_items s' + count_items (rejects env) (pending s')
              + in_progress (rejects env) (workers s') = count_items (rejects env) items"
              using cnt_bad zero [of "rejects env"] split
              by (simp add: s'_def f in_progress_update [OF w] unsettled_fresh
                    count_items_append count_items_rev)
            show "onError_given env \<longrightarrow> int (length (onError_calls s')) = failed_items s'"
              using err1 by (simp add: s'_def)
          qed
          have "run_inv env items s'"
            unfolding run_inv_def using core' aw le alt by (simp add: s'_def f)
          with st show ?thesis by blast
        qed
      qed
    qed
  qed
qed

lemma step_fixed:
  assumes "env_fixed env items" and "run_inv env items s"
  shows "\<exists>s'. step env e s = Some s' \<and> run_inv env items s'"
proof (cases e)
  case Tick
  with scaler_fixed [OF assms] assms(2) show ?thesis by simp
next
  case (Settle w i)
  with settle_fixed [OF assms, of w i] show ?thesis by simp
qed

lemma run_events_fixed:
  "env_fixed env items \<Longrightarrow> run_inv env items s \<Longrightarrow>
     run_inv env items (snd (run_events env es s))
     \<and> fst (run_events env es s) \<noteq> Hangs
     \<and> (\<forall>m. fst (run_events env es s) = Resolved m \<longrightarrow>
           all_awaited_returned (snd (run_events env es s))
           \<and> m = read_metrics env (snd (run_events env es s)))"
proof (induction es arbitrary: s)
  case Nil
  then show ?case by simp
next
  case (Cons e es)
  show ?case
  proof (cases "all_awaited_returned s")
    case True
    with Cons.prems show ?thesis by simp
  next
    case False
    from step_fixed [OF Cons.prems, of e] obtain s1
      where st: "step env e s = Some s1" and inv1: "run_inv env items s1" by blast
    from Cons.IH [OF Cons.prems(1) inv1] False st show ?thesis by simp
  qed
qed

lemma all_Finished_counts:
  assumes "list_all (\<lambda>st. st = Finished) ws"
  shows "count_items is_Awaiting ws = 0" and "in_progress P ws = 0"
    and "list_all is_Awaiting ws \<Longrightarrow> ws = []"
  using assms
  by (induction ws)
     (simp_all add: count_items_def in_progress_def is_Awaiting_def unsettled_def)

lemma resolved_state_fixed:
  assumes env: "env_fixed env items" and inv: "run_inv env items s"
    and ret: "all_awaited_returned s"
  shows "pending s = [] \<and> activeWorkers s = 0
       \<and> completed_items s = count_items (resolves env) items
       \<and> failed_items s = count_items (rejects env) items
       \<and> (onError_given env \<longrightarrow> int (length (onError_calls s)) = count_items (rejects env) items)"
proof -
  from env have bs: "1 \<le> batchSize env" and tot: "total_items env = int (length items)"
    and mc: "1 \<le> minConcurrency env"
    by (simp_all add: env_fixed_def)
  from inv [unfolded run_inv_def]
  have core: "core_inv env items s" and aw: "awaited s = length (workers s)"
    and alt: "int (awaited s) = minConcurrency env
           \<or> - ((- total_items env) div batchSize env) \<le> int (awaited s)"
    by blast+
  from ret aw have fin: "list_all (\<lambda>st. st = Finished) (workers s)"
    by (simp add: all_awaited_returned_def)
  note z = all_Finished_counts [OF fin]
  from core [unfolded core_inv_def]
  obtain k where pre: "pending s = take k items" by blast
  from core [unfolded core_inv_def]
  have act: "activeWorkers s = count_items is_Awaiting (workers s)"
    and allA: "pending s \<noteq> [] \<longrightarrow> list_all is_Awaiting (workers s)"
    and cnt_ok: "completed_items s + count_items (resolves env) (pending s)
            + in_progress (resolves env) (workers s) = count_items (resolves env) items"
    and cnt_bad: "failed_items s + count_items (rejects env) (pending s)
            + in_progress (rejects env) (workers s) = count_items (rejects env) items"
    and err: "onError_given env \<longrightarrow> int (length (onError_calls s)) = failed_items s"
    by blast+
  have empty: "pending s = []"
  proof (rule ccontr)
    assume ne: "pending s \<noteq> []"
    with allA z(3) have "workers s = []" by simp
    with aw alt mc have "- ((- total_items env) div batchSize env) \<le> 0" by simp
    with ceil_pos [OF bs, of "total_items env"] have "total_items env \<le> 0" by force
    with tot have "items = []" by simp
    with pre ne show False by simp
  qed
  with act cnt_ok cnt_bad err z(1) z(2) show ?thesis by (simp add: count_items_def)
qed

lemma work_env_of_Fixed:
  assumes "1 \<le> n"
    and "1 \<le> (case options of None \<Rightarrow> 1
               | Some opt \<Rightarrow> (case opt_batchSize opt of None \<Rightarrow> 1 | Some b \<Rightarrow> b))"
    and "list_all (\<lambda>x. \<not> undef x) items"
  shows "env_fixed (work_env_of (Fixed n) items fn options undef) items"
  using assms by (simp add: env_fixed_def work_env_of_def Let_def)

text \<open>
  With a fixed number \<open>n\<close> of workers, \<open>n\<close> at least 1, a batch size of at least
  1 and no \<open>undefined\<close> item, the timer never starts a worker, so every worker
  is awaited: under every sequence of events the invocation does not hang, and
  when it resolves, every item has been processed, \<open>completed\<close> and \<open>failed\<close>
  count the items for which \<open>fn\<close> resolves and rejects, \<open>onError\<close> was called
  once per failure and \<open>currentConcurrency\<close> is 0. The defect shown above needs
  a range \<open>{min, max}\<close> with \<open>min < max\<close>.
\<close>

theorem work_fixed_concurrency:
  assumes n: "1 \<le> n"
    and bs: "1 \<le> (case options of None \<Rightarrow> 1
               | Some opt \<Rightarrow> (case opt_batchSize opt of None \<Rightarrow> 1 | Some b \<Rightarrow> b))"
    and undef: "list_all (\<lambda>x. \<not> undef x) items"
  shows "fst (work (Fixed n) items fn options undef events) \<noteq> Hangs
       \<and> (\<forall>m. fst (work (Fixed n) items fn options undef events) = Resolved m \<longrightarrow>
             completed m = count_items (\<lambda>x. fn x = None) items
             \<and> failed m = count_items (\<lambda>x. fn x \<noteq> None) items
             \<and> total m = int (length items)
             \<and> currentConcurrency m = 0
             \<and> pending (snd (work (Fixed n) items fn options undef events)) = []
             \<and> ((\<exists>opt. options = Some opt \<and> opt_onError opt) \<longrightarrow>
                  int (length (onError_calls (snd (work (Fixed n) items fn options undef events))))
                    = failed m))"
proof -
  define env :: "('a, 'b) work_env" where "env = work_env_of (Fixed n) items fn options undef"
  have env: "env_fixed env items" unfolding env_def by (rule work_env_of_Fixed [OF n bs undef])
  have fn: "resolves env = (\<lambda>x. fn x = None)" "rejects env = (\<lambda>x. fn x \<noteq> None)"
    "total_items env = int (length items)"
    "onError_given env = (\<exists>opt. options = Some opt \<and> opt_onError opt)"
    by (auto simp: env_def work_env_of_def resolves_def rejects_def Let_def split: option.splits)
  from work_start_fixed [OF env] obtain s0
    where ws: "work_start env items = Some s0" and inv0: "run_inv env items s0" by blast
  have w: "work (Fixed n) items fn options undef events = run_events env events s0"
    by (simp add: work_def env_def [symmetric] ws)
  note r = run_events_fixed [OF env inv0, of events]
  show ?thesis
  proof (intro conjI allI impI)
    show "fst (work (Fixed n) items fn options undef events) \<noteq> Hangs" using r by (simp add: w)
  next
    fix m
    assume res: "fst (work (Fixed n) items fn options undef events) = Resolved m"
    with r have ret: "all_awaited_returned (snd (run_events env events s0))"
      and m: "m = read_metrics env (snd (run_events env events s0))"
      by (simp_all add: w)
    from r have inv: "run_inv env items (snd (run_events env events s0))" by simp
    note fin = resolved_state_fixed [OF env inv ret]
    show "completed m = count_items (\<lambda>x. fn x = None) items"
      using fin by (simp add: m read_metrics_def fn)
    show "failed m = count_items (\<lambda>x. fn x \<noteq> None) items"
      using fin by (simp add: m read_metrics_def fn)
    show "total m = int (length items)" by (simp add: m read_metrics_def fn)
    show "currentConcurrency m = 0" using fin by (simp add: m read_metrics_def)
    show "pending (snd (work (Fixed n) items fn options undef events)) = []"
      using fin by (simp add: w)
    assume "\<exists>opt. options = Some opt \<and> opt_onError opt"
    then show "int (length (onError_calls (snd (work (Fixed n) items fn options undef events))))
                    = failed m"
      using fin by (simp add: w m read_metrics_def fn)
  qed
qed

text \<open>A run of ten items with three workers that resolves.\<close>

lemma work_fixed_example:
  "fst (work (Fixed 3) [1, 2, 3, 4, 5, 6, 7, 8, 9, 10] rejects_259 (Some opts_onError)
      never_undefined
      [Tick, Settle 0 0, Settle 1 0, Settle 2 0, Tick, Settle 0 0, Settle 1 0, Settle 2 0,
       Settle 0 0, Settle 1 0, Settle 2 0, Tick, Settle 0 0, Settle 1 0, Settle 2 0])
     = Resolved \<lparr> completed = 7, failed = 3, total = 10, currentConcurrency = 0 \<rparr>"
  by code_simp


end
